theory Spec2Isabelle
  imports Main "HOL-Library.Word" "HOL-Library.Monad_Syntax" "HOL-Library.Sublist"
begin

section \<open>The allocator of \<^verbatim>\<open>my_malloc.c\<close>\<close>

text \<open>
  The program keeps a singly linked, address-ordered free list of block headers inside the
  heap it obtains from \<^verbatim>\<open>my_sbrk\<close>. The model follows the C text function by function.

  \<^item> Pointers, \<^verbatim>\<open>uintptr_t\<close>, \<^verbatim>\<open>size_t\<close> and \<^verbatim>\<open>unsigned long\<close> are 64-bit words (an LP64
    platform); all arithmetic on them wraps, all comparisons are unsigned.
  \<^item> The two header fields are two maps from the header's address to the field's value
    (\<open>size_f\<close> for \<^verbatim>\<open>->size\<close>, \<open>next_f\<close> for \<^verbatim>\<open>->next\<close>); payload bytes live in a third
    map \<open>bytes\<close>. Headers at different addresses are therefore independent cells, which
    is what the C program sees as long as blocks do not overlap.
  \<^item> Every function returns an \<open>option\<close>: \<open>None\<close> stands for a call that does not return
    (a \<^verbatim>\<open>while\<close> loop running around a cyclic list, or a load or store through the null
    pointer where the program can reach one).
  \<^item> \<^verbatim>\<open>my_malloc.h\<close> is not part of the sources. Its two constants are the fields of the
    record \<open>config\<close>, a parameter of every function; the error enumeration is the datatype
    \<open>my_malloc_err\<close>.
\<close>

type_synonym addr = "64 word"
type_synonym size_t = "64 word"

abbreviation NULL :: addr where
  "NULL \<equiv> 0"

datatype my_malloc_err = NO_ERROR | OUT_OF_MEMORY | SINGLE_REQUEST_TOO_LARGE

record config =
  TOTAL_METADATA_SIZE :: size_t
  SBRK_SIZE :: size_t

record state =
  address_list :: addr
  my_malloc_errno :: my_malloc_err
  size_f :: "addr \<Rightarrow> size_t"
  next_f :: "addr \<Rightarrow> addr"
  bytes :: "addr \<Rightarrow> 8 word"
  brk :: addr
  heap_end :: addr

subsection \<open>The heap-extension primitive\<close>

text \<open>
  Modelled from the spec: \<^verbatim>\<open>my_sbrk\<close> is declared in the missing header and defined outside
  the repository's sources. The spec gives its contract: it returns the previous boundary
  of the heap and moves the boundary up by the increment, or it returns the failure
  sentinel \<^verbatim>\<open>(void *)-1\<close> and changes nothing. Here the boundary is \<open>brk\<close> and the
  primitive fails once the boundary would pass \<open>heap_end\<close>.
\<close>

definition my_sbrk :: "size_t \<Rightarrow> state \<Rightarrow> addr \<times> state" where
  "my_sbrk increment s =
     (if unat (brk s) + unat increment \<le> unat (heap_end s)
      then (brk s, s\<lparr>brk := brk s + increment\<rparr>)
      else (- 1, s))"

subsection \<open>Library functions on payload bytes\<close>

text \<open>\<^verbatim>\<open>memset\<close> and \<^verbatim>\<open>memcpy\<close> of the C library, on the byte map.\<close>

definition memset :: "addr \<Rightarrow> 8 word \<Rightarrow> size_t \<Rightarrow> state \<Rightarrow> state" where
  "memset dst v n s = s\<lparr>bytes := (\<lambda>a. if a - dst < n then v else bytes s a)\<rparr>"

definition memcpy :: "addr \<Rightarrow> addr \<Rightarrow> size_t \<Rightarrow> state \<Rightarrow> state" where
  "memcpy dst src n s =
     s\<lparr>bytes := (\<lambda>a. if a - dst < n then bytes s (src + (a - dst)) else bytes s a)\<rparr>"

subsection \<open>Helper functions\<close>

definition merge :: "config \<Rightarrow> addr \<Rightarrow> addr \<Rightarrow> state \<Rightarrow> state" where
  "merge c left right s =
     (let s1 = s\<lparr>size_f := (size_f s)(left := size_f s left + size_f s right + TOTAL_METADATA_SIZE c)\<rparr>
      in s1\<lparr>next_f := (next_f s1)(left := next_f s1 right)\<rparr>)"

text \<open>
  The \<^verbatim>\<open>while\<close> loop of \<^verbatim>\<open>mergeAll\<close>: the loop variables are \<open>prev\<close>, \<open>cur\<close> and the flag
  \<open>i\<close>; the result is the flag and the heap after the pass.
\<close>

partial_function (option) mergeAll_loop ::
  "config \<Rightarrow> addr \<Rightarrow> addr \<Rightarrow> bool \<Rightarrow> state \<Rightarrow> (bool \<times> state) option" where
  "mergeAll_loop c prev cur i s =
     (if cur \<noteq> NULL
      then (if prev + TOTAL_METADATA_SIZE c + size_f s prev = cur
            then mergeAll_loop c cur (next_f (merge c prev cur s) cur) True (merge c prev cur s)
            else mergeAll_loop c cur (next_f s cur) i s)
      else Some (i, s))"

partial_function (option) mergeAll :: "config \<Rightarrow> state \<Rightarrow> state option" where
  "mergeAll c s =
     (if address_list s = NULL then Some s
      else (case mergeAll_loop c (address_list s) (next_f s (address_list s)) False s of
              None \<Rightarrow> None
            | Some (i, s') \<Rightarrow> if i then mergeAll c s' else Some s'))"

definition split_block :: "config \<Rightarrow> addr \<Rightarrow> size_t \<Rightarrow> state \<Rightarrow> (addr \<times> state) option" where
  "split_block c block sz s =
     (let realSize = sz + TOTAL_METADATA_SIZE c;
          newBlock = block + TOTAL_METADATA_SIZE c + size_f s block - realSize;
          s1 = s\<lparr>size_f := (size_f s)(block := size_f s block - realSize)\<rparr>
      in if newBlock = NULL then None
         else Some (newBlock, s1\<lparr>size_f := (size_f s1)(newBlock := sz)\<rparr>))"

text \<open>The scanning loop of \<^verbatim>\<open>add_to_addr_list\<close>; it returns the final \<open>(prev, cur)\<close>.\<close>

partial_function (option) add_scan ::
  "state \<Rightarrow> addr \<Rightarrow> addr \<Rightarrow> addr \<Rightarrow> (addr \<times> addr) option" where
  "add_scan s block prev cur =
     (if cur \<noteq> NULL \<and> cur < block then add_scan s block cur (next_f s cur)
      else Some (prev, cur))"

definition add_to_addr_list :: "addr \<Rightarrow> state \<Rightarrow> state option" where
  "add_to_addr_list block s =
     (if address_list s = NULL then Some (s\<lparr>address_list := block\<rparr>)
      else (case add_scan s block NULL (address_list s) of
              None \<Rightarrow> None
            | Some (prev, cur) \<Rightarrow>
                if block = NULL then None
                else if prev = NULL
                then Some (s\<lparr>address_list := block, next_f := (next_f s)(block := cur)\<rparr>)
                else Some (s\<lparr>next_f := (next_f s)(prev := block, block := cur)\<rparr>)))"

text \<open>The scanning loop of \<^verbatim>\<open>remove_from_addr_list\<close>.\<close>

partial_function (option) remove_scan ::
  "state \<Rightarrow> addr \<Rightarrow> addr \<Rightarrow> addr \<Rightarrow> (addr \<times> addr) option" where
  "remove_scan s block prev cur =
     (if cur \<noteq> NULL \<and> cur \<noteq> block then remove_scan s block cur (next_f s cur)
      else Some (prev, cur))"

definition remove_from_addr_list :: "addr \<Rightarrow> state \<Rightarrow> state option" where
  "remove_from_addr_list block s =
     (if address_list s = NULL then Some s
      else (case remove_scan s block NULL (address_list s) of
              None \<Rightarrow> None
            | Some (prev, cur) \<Rightarrow>
                if prev = NULL then Some (s\<lparr>address_list := next_f s cur\<rparr>)
                else if cur = NULL then Some s
                else Some (s\<lparr>next_f := (next_f s)(prev := next_f s cur)\<rparr>)))"

text \<open>
  The first loop of \<^verbatim>\<open>find_best_fit\<close> either returns from the function with an exact match
  (\<open>Inl\<close>) or ends with the final \<open>bestSize\<close> (\<open>Inr\<close>); the second loop returns the first
  block of that size, or \<^verbatim>\<open>NULL\<close>.
\<close>

partial_function (option) best_scan ::
  "state \<Rightarrow> size_t \<Rightarrow> addr \<Rightarrow> size_t \<Rightarrow> (addr + size_t) option" where
  "best_scan s sz cur bestSize =
     (if cur \<noteq> NULL
      then (if size_f s cur = sz then Some (Inl cur)
            else if size_f s cur > sz \<and> size_f s cur < bestSize
            then best_scan s sz (next_f s cur) (size_f s cur)
            else best_scan s sz (next_f s cur) bestSize)
      else Some (Inr bestSize))"

partial_function (option) size_scan :: "state \<Rightarrow> size_t \<Rightarrow> addr \<Rightarrow> addr option" where
  "size_scan s bestSize cur =
     (if cur \<noteq> NULL
      then (if size_f s cur = bestSize then Some cur
            else size_scan s bestSize (next_f s cur))
      else Some NULL)"

definition find_best_fit :: "size_t \<Rightarrow> state \<Rightarrow> addr option" where
  "find_best_fit sz s =
     (if address_list s = NULL then Some NULL
      else (case best_scan s sz (address_list s) 0xffffffff of
              None \<Rightarrow> None
            | Some (Inl cur) \<Rightarrow> Some cur
            | Some (Inr bestSize) \<Rightarrow> size_scan s bestSize (address_list s)))"

subsection \<open>The four public functions\<close>

text \<open>
  Lines 174 to 190 of \<^verbatim>\<open>my_malloc\<close>: what the function does with the block \<open>temp\<close> it has
  selected. The result is the returned pointer and the heap. \<^verbatim>\<open>my_malloc\<close> itself follows; a
  chunk that \<^verbatim>\<open>my_sbrk\<close> hands out at address 0 makes the store to \<^verbatim>\<open>newBlock->size\<close> a store
  through the null pointer.
\<close>

definition take_block :: "config \<Rightarrow> addr \<Rightarrow> size_t \<Rightarrow> state \<Rightarrow> (addr \<times> state) option" where
  "take_block c temp sz s =
     (if size_f s temp = sz
      then do {
        s1 \<leftarrow> remove_from_addr_list temp s;
        Some (temp + TOTAL_METADATA_SIZE c, s1\<lparr>my_malloc_errno := NO_ERROR\<rparr>)
      }
      else if size_f s temp > sz
      then (if size_f s temp \<ge> sz + TOTAL_METADATA_SIZE c + 1
            then do {
              (ret, s1) \<leftarrow> split_block c temp sz s;
              let s2 = s1\<lparr>size_f := (size_f s1)(ret := sz)\<rparr>;
              Some (ret + TOTAL_METADATA_SIZE c, s2\<lparr>my_malloc_errno := NO_ERROR\<rparr>)
            }
            else do {
              s1 \<leftarrow> remove_from_addr_list temp (s\<lparr>my_malloc_errno := NO_ERROR\<rparr>);
              Some (temp + TOTAL_METADATA_SIZE c, s1)
            })
      else Some (NULL, s))"

definition my_malloc :: "config \<Rightarrow> size_t \<Rightarrow> state \<Rightarrow> (addr \<times> state) option" where
  "my_malloc c sz s0 =
     (let s = s0\<lparr>my_malloc_errno := NO_ERROR\<rparr> in
      if sz > SBRK_SIZE c - TOTAL_METADATA_SIZE c
      then Some (NULL, s\<lparr>my_malloc_errno := SINGLE_REQUEST_TOO_LARGE\<rparr>)
      else if sz = 0
      then Some (NULL, s\<lparr>my_malloc_errno := NO_ERROR\<rparr>)
      else do {
        temp \<leftarrow> find_best_fit sz s;
        if temp = NULL
        then (case my_sbrk (SBRK_SIZE c) s of (newBlock, s1) \<Rightarrow>
          if newBlock = - 1
          then Some (NULL, s1\<lparr>my_malloc_errno := OUT_OF_MEMORY\<rparr>)
          else if newBlock = NULL then None
          else do {
            let s2 = s1\<lparr>size_f := (size_f s1)(newBlock := SBRK_SIZE c - TOTAL_METADATA_SIZE c)\<rparr>;
            let s3 = s2\<lparr>next_f := (next_f s2)(newBlock := NULL)\<rparr>;
            s4 \<leftarrow> add_to_addr_list newBlock s3;
            s5 \<leftarrow> mergeAll c s4;
            temp \<leftarrow> find_best_fit sz s5;
            if temp = NULL \<or> size_f s5 temp < sz
            then Some (NULL, s5\<lparr>my_malloc_errno := OUT_OF_MEMORY\<rparr>)
            else take_block c temp sz s5
          })
        else take_block c temp sz s
      })"

definition my_free :: "config \<Rightarrow> addr \<Rightarrow> state \<Rightarrow> state option" where
  "my_free c ptr s0 =
     (let s = s0\<lparr>my_malloc_errno := NO_ERROR\<rparr> in
      if ptr = NULL then Some s
      else do {
        s1 \<leftarrow> add_to_addr_list (ptr - TOTAL_METADATA_SIZE c) s;
        mergeAll c s1
      })"

text \<open>
  In \<^verbatim>\<open>my_realloc\<close> the number of bytes to copy goes through an \<^verbatim>\<open>int\<close>: it is cut to 32 bits
  and sign-extended again when passed to \<^verbatim>\<open>memcpy\<close>.
\<close>

definition my_realloc :: "config \<Rightarrow> addr \<Rightarrow> size_t \<Rightarrow> state \<Rightarrow> (addr \<times> state) option" where
  "my_realloc c ptr sz s0 =
     (let s = s0\<lparr>my_malloc_errno := NO_ERROR\<rparr> in
      if ptr = NULL then my_malloc c sz s
      else if sz = 0 then do { s1 \<leftarrow> my_free c ptr s; Some (NULL, s1) }
      else do {
        (temp, s1) \<leftarrow> my_malloc c sz s;
        if temp = NULL then Some (NULL, s1)
        else if ptr - TOTAL_METADATA_SIZE c = NULL then None
        else do {
          let cur = ptr - TOTAL_METADATA_SIZE c;
          let min = (scast (ucast (if size_f s1 cur > sz then sz else size_f s1 cur) :: 32 word) :: size_t);
          s2 \<leftarrow> my_free c ptr (memcpy temp ptr min s1);
          Some (temp, s2)
        }
      })"

definition my_calloc :: "config \<Rightarrow> size_t \<Rightarrow> size_t \<Rightarrow> state \<Rightarrow> (addr \<times> state) option" where
  "my_calloc c nmemb sz s0 =
     (let s = s0\<lparr>my_malloc_errno := NO_ERROR\<rparr> in
      do {
        (temp, s1) \<leftarrow> my_malloc c (nmemb * sz) s;
        if temp = NULL then Some (NULL, s1)
        else Some (temp, memset temp 0 (nmemb * sz) s1)
      })"

text \<open>The loops are run on concrete heaps through their unfolding equations.\<close>

declare mergeAll_loop.simps [code] mergeAll.simps [code] add_scan.simps [code] remove_scan.simps [code]
  best_scan.simps [code] size_scan.simps [code]

subsection \<open>A concrete configuration and the empty heap\<close>

text \<open>
  A header of 16 bytes and chunks of 2048 bytes; a heap whose boundary starts at 4096 and
  that \<^verbatim>\<open>my_sbrk\<close> can extend twice.
\<close>

definition cfg0 :: config where "cfg0 = \<lparr>TOTAL_METADATA_SIZE = 16, SBRK_SIZE = 2048\<rparr>"
definition heap0 :: state where
  "heap0 = \<lparr>address_list = NULL, my_malloc_errno = NO_ERROR, size_f = (\<lambda>_. 0), next_f = (\<lambda>_. NULL),
     bytes = (\<lambda>_. 0), brk = 4096, heap_end = 8192\<rparr>"

text \<open>A free list of four blocks, the first three adjacent to one another.\<close>

definition heap_adj :: state where
  "heap_adj = \<lparr>address_list = 4096, my_malloc_errno = NO_ERROR,
     size_f = (\<lambda>_. 0)(4096 := 88, 4200 := 100, 4316 := 50, 5000 := 60),
     next_f = (\<lambda>_. NULL)(4096 := 4200, 4200 := 4316, 4316 := 5000),
     bytes = (\<lambda>_. 0), brk = 6144, heap_end = 8192\<rparr>"

text \<open>
  Two heaps of four gigabytes with a single free block, of \<open>2^32\<close> bytes in the first and
  of \<open>2^32 - 1\<close> bytes in the second.
\<close>

definition heap_big :: state where
  "heap_big = \<lparr>address_list = 4096, my_malloc_errno = NO_ERROR,
     size_f = (\<lambda>_. 0)(4096 := 4294967296),
     next_f = (\<lambda>_. NULL),
     bytes = (\<lambda>_. 0), brk = 4294971408, heap_end = 4294971408\<rparr>"

definition heap_max :: state where
  "heap_max = \<lparr>address_list = 4096, my_malloc_errno = NO_ERROR,
     size_f = (\<lambda>_. 0)(4096 := 4294967295),
     next_f = (\<lambda>_. NULL),
     bytes = (\<lambda>_. 0), brk = 4294971408, heap_end = 4294971408\<rparr>"

text \<open>A free list with a single block.\<close>

definition heap_one :: state where
  "heap_one = \<lparr>address_list = 4096, my_malloc_errno = NO_ERROR,
     size_f = (\<lambda>_. 0)(4096 := 100), next_f = (\<lambda>_. NULL),
     bytes = (\<lambda>_. 0), brk = 6144, heap_end = 8192\<rparr>"

text \<open>A free list of two blocks that do not touch.\<close>

definition heap_sep :: state where
  "heap_sep = \<lparr>address_list = 4096, my_malloc_errno = NO_ERROR,
     size_f = (\<lambda>_. 0)(4096 := 200, 5000 := 60),
     next_f = (\<lambda>_. NULL)(4096 := 5000),
     bytes = (\<lambda>_. 0), brk = 6144, heap_end = 8192\<rparr>"

section \<open>The free list as a list of blocks\<close>

text \<open>
  \<open>seg nx p as q\<close>: following the \<^verbatim>\<open>next\<close> pointers \<open>nx\<close> from \<open>p\<close> visits exactly the
  non-null headers \<open>as\<close> and arrives at \<open>q\<close>. The free list of a state is the segment from
  \<open>address_list\<close> to \<^verbatim>\<open>NULL\<close>; \<open>blocks\<close> pairs each header of the list with its \<^verbatim>\<open>size\<close> field.
\<close>

primrec seg :: "(addr \<Rightarrow> addr) \<Rightarrow> addr \<Rightarrow> addr list \<Rightarrow> addr \<Rightarrow> bool" where
  "seg nx p [] q \<longleftrightarrow> p = q"
| "seg nx p (a # as) q \<longleftrightarrow> p = a \<and> a \<noteq> NULL \<and> seg nx (nx a) as q"

definition free_list :: "state \<Rightarrow> addr list \<Rightarrow> bool" where
  "free_list s ps \<longleftrightarrow> seg (next_f s) (address_list s) ps NULL"

definition blocks :: "state \<Rightarrow> addr list \<Rightarrow> (addr \<times> size_t) list" where
  "blocks s ps = map (\<lambda>a. (a, size_f s a)) ps"

text \<open>
  \<open>frame A s s'\<close>: the state \<open>s'\<close> differs from \<open>s\<close> at most in the header fields of the
  addresses in \<open>A\<close>.
\<close>

definition frame :: "addr set \<Rightarrow> state \<Rightarrow> state \<Rightarrow> bool" where
  "frame A s s' \<longleftrightarrow>
     (\<forall>a. a \<notin> A \<longrightarrow> size_f s' a = size_f s a \<and> next_f s' a = next_f s a) \<and>
     bytes s' = bytes s \<and> brk s' = brk s \<and> heap_end s' = heap_end s \<and>
     my_malloc_errno s' = my_malloc_errno s \<and> address_list s' = address_list s"

text \<open>
  The two scanning loops along the list of headers they visit: the scan goes on while the
  test \<open>P\<close> holds and returns the last header passed and the header it stopped at.
\<close>

fun scan_list :: "(addr \<Rightarrow> bool) \<Rightarrow> addr \<Rightarrow> addr list \<Rightarrow> addr \<times> addr" where
  "scan_list P prev [] = (prev, NULL)"
| "scan_list P prev (a # as) = (if P a then scan_list P a as else (prev, a))"

text \<open>The loop of \<^verbatim>\<open>mergeAll\<close> along the list of headers \<open>cur\<close> runs through.\<close>

fun loop_list :: "config \<Rightarrow> addr \<Rightarrow> addr list \<Rightarrow> bool \<Rightarrow> state \<Rightarrow> bool \<times> state" where
  "loop_list c prev [] i s = (i, s)"
| "loop_list c prev (b # rest) i s =
     (if prev + TOTAL_METADATA_SIZE c + size_f s prev = b
      then loop_list c b rest True (merge c prev b s)
      else loop_list c b rest i s)"

text \<open>
  One pass of \<^verbatim>\<open>mergeAll\<close> on a list of blocks (address and size), \<open>m\<close> being the header
  size. After a merge the loop's \<open>prev\<close> is the block just merged away, so the block that
  follows is compared with that dead header and stays in the list whatever the outcome.
\<close>

fun pass :: "size_t \<Rightarrow> addr \<times> size_t \<Rightarrow> (addr \<times> size_t) list \<Rightarrow> (addr \<times> size_t) list" where
  "pass m (a, z) [] = [(a, z)]"
| "pass m (a, z) [(b, y)] = (if a + m + z = b then [(a, z + y + m)] else [(a, z), (b, y)])"
| "pass m (a, z) ((b, y) # r # rs) =
     (if a + m + z = b then (a, z + y + m) # pass m r rs
      else (a, z) # pass m (b, y) (r # rs))"

function coalesce :: "size_t \<Rightarrow> (addr \<times> size_t) list \<Rightarrow> (addr \<times> size_t) list" where
  "coalesce m [] = []"
| "coalesce m (b # bs) =
     (if length (pass m b bs) < Suc (length bs) then coalesce m (pass m b bs) else pass m b bs)"
  by pat_completeness auto
termination
  by (relation "measure (\<lambda>(m, bs). length bs)") auto

fun no_adjacent :: "size_t \<Rightarrow> (addr \<times> size_t) list \<Rightarrow> bool" where
  "no_adjacent m [] \<longleftrightarrow> True"
| "no_adjacent m [b] \<longleftrightarrow> True"
| "no_adjacent m ((a, z) # (b, y) # rest) \<longleftrightarrow> a + m + z \<noteq> b \<and> no_adjacent m ((b, y) # rest)"

text \<open>\<^verbatim>\<open>find_best_fit\<close> on a list of blocks.\<close>

fun best_list :: "size_t \<Rightarrow> (addr \<times> size_t) list \<Rightarrow> size_t \<Rightarrow> addr + size_t" where
  "best_list sz [] bestSize = Inr bestSize"
| "best_list sz ((a, z) # bs) bestSize =
     (if z = sz then Inl a
      else if z > sz \<and> z < bestSize then best_list sz bs z
      else best_list sz bs bestSize)"

fun first_of_size :: "size_t \<Rightarrow> (addr \<times> size_t) list \<Rightarrow> addr" where
  "first_of_size bestSize [] = NULL"
| "first_of_size bestSize ((a, z) # bs) = (if z = bestSize then a else first_of_size bestSize bs)"

definition best_fit :: "size_t \<Rightarrow> (addr \<times> size_t) list \<Rightarrow> addr" where
  "best_fit sz bs =
     (case best_list sz bs 0xffffffff of Inl a \<Rightarrow> a | Inr bestSize \<Rightarrow> first_of_size bestSize bs)"

text \<open>
  \<^verbatim>\<open>add_to_addr_list\<close> on the list of headers: the block goes before the first header that
  is not below it.
\<close>

definition ins :: "addr \<Rightarrow> addr list \<Rightarrow> addr list" where
  "ins block ps = takeWhile (\<lambda>a. a < block) ps @ block # dropWhile (\<lambda>a. a < block) ps"

text \<open>
  \<open>relinked A s s'\<close>: from \<open>s\<close> to \<open>s'\<close> only \<open>address_list\<close> and the \<^verbatim>\<open>next\<close> fields of the
  headers in \<open>A\<close> may have changed.
\<close>

definition relinked :: "addr set \<Rightarrow> state \<Rightarrow> state \<Rightarrow> bool" where
  "relinked A s s' \<longleftrightarrow>
     (\<forall>a. a \<notin> A \<longrightarrow> next_f s' a = next_f s a) \<and> size_f s' = size_f s \<and>
     bytes s' = bytes s \<and> brk s' = brk s \<and> heap_end s' = heap_end s \<and>
     my_malloc_errno s' = my_malloc_errno s"

text \<open>
  A block lies inside the heap obtained so far when its header and payload end at or below
  the heap boundary.
\<close>

definition in_heap :: "config \<Rightarrow> state \<Rightarrow> addr \<Rightarrow> bool" where
  "in_heap c s a \<longleftrightarrow>
     unat a + unat (TOTAL_METADATA_SIZE c) + unat (size_f s a) \<le> unat (brk s)"

text \<open>
  What the proofs need of the two constants of the header: the header has a positive size,
  a chunk holds at least a header, and the usable part of a chunk is at most \<^verbatim>\<open>0xffffffff\<close>.
\<close>

definition config_ok :: "config \<Rightarrow> bool" where
  "config_ok c \<longleftrightarrow>
     0 < TOTAL_METADATA_SIZE c \<and> TOTAL_METADATA_SIZE c \<le> SBRK_SIZE c \<and>
     SBRK_SIZE c - TOTAL_METADATA_SIZE c \<le> 0xffffffff"

text \<open>A valid heap: a well-formed free list whose blocks all lie inside the heap.\<close>

definition valid_heap :: "config \<Rightarrow> state \<Rightarrow> addr list \<Rightarrow> bool" where
  "valid_heap c s ps \<longleftrightarrow> free_list s ps \<and> list_all (in_heap c s) ps"

text \<open>The same bound on a list of blocks, for a given limit.\<close>

definition fits :: "size_t \<Rightarrow> addr \<Rightarrow> (addr \<times> size_t) list \<Rightarrow> bool" where
  "fits m lim bs \<longleftrightarrow> list_all (\<lambda>(a, z). unat a + unat m + unat z \<le> unat lim) bs"

text \<open>
  A coalesced, address-ordered list of blocks: every block ends strictly below the address
  of the next one, so that no two blocks overlap or touch.
\<close>

fun separated :: "size_t \<Rightarrow> (addr \<times> size_t) list \<Rightarrow> bool" where
  "separated m [] \<longleftrightarrow> True"
| "separated m [b] \<longleftrightarrow> True"
| "separated m ((a, z) # (b, y) # rest) \<longleftrightarrow>
     unat a + unat m + unat z < unat b \<and> separated m ((b, y) # rest)"

text \<open>The total number of free payload bytes of a free list.\<close>

definition free_bytes :: "state \<Rightarrow> addr list \<Rightarrow> nat" where
  "free_bytes s ps = sum_list (map (\<lambda>a. unat (size_f s a)) ps)"

section \<open>The loops along a well-formed free list\<close>

text \<open>
  On a free list that ends in \<^verbatim>\<open>NULL\<close> every loop of the program returns, and what it
  computes is the corresponding function on the list of headers.
\<close>

lemma seg_append:
  "seg nx p (as @ bs) q \<longleftrightarrow> (\<exists>r. seg nx p as r \<and> seg nx r bs q)"
  by (induction as arbitrary: p) auto

lemma seg_upd:
  "u \<notin> set as \<Longrightarrow> seg (nx(u := v)) p as q \<longleftrightarrow> seg nx p as q"
  by (induction as arbitrary: p) auto

lemma seg_cong:
  "(\<And>a. a \<in> set as \<Longrightarrow> nx' a = nx a) \<Longrightarrow> seg nx' p as q \<longleftrightarrow> seg nx p as q"
  by (induction as arbitrary: p) auto

lemma seg_null_unique:
  "seg nx p as NULL \<Longrightarrow> seg nx p bs NULL \<Longrightarrow> as = bs"
proof (induction as arbitrary: p bs)
  case Nil
  then show ?case by (cases bs) auto
next
  case (Cons a as)
  then show ?case by (cases bs) auto
qed

lemma seg_null_not_hd:
  assumes "seg nx (nx a) as NULL"
  shows "a \<notin> set as"
proof
  assume "a \<in> set as"
  then obtain xs ys where as: "as = xs @ a # ys"
    by (auto simp: in_set_conv_decomp)
  with assms have "seg nx (nx a) ys NULL"
    by (auto simp: seg_append)
  with assms have "as = ys"
    by (blast intro: seg_null_unique)
  with as show False by simp
qed

lemma seg_null_distinct:
  "seg nx p as NULL \<Longrightarrow> distinct as"
  by (induction as arbitrary: p) (auto dest: seg_null_not_hd)

lemma seg_not_null:
  "seg nx p as q \<Longrightarrow> NULL \<notin> set as"
  by (induction as arbitrary: p) auto

lemma add_scan_list:
  "seg (next_f s) cur cs NULL \<Longrightarrow>
   add_scan s block prev cur = Some (scan_list (\<lambda>a. a < block) prev cs)"
proof (induction cs arbitrary: prev cur)
  case Nil
  then show ?case by (simp add: add_scan.simps)
next
  case (Cons a cs)
  then show ?case by (subst add_scan.simps) simp
qed

lemma remove_scan_list:
  "seg (next_f s) cur cs NULL \<Longrightarrow>
   remove_scan s block prev cur = Some (scan_list (\<lambda>a. a \<noteq> block) prev cs)"
proof (induction cs arbitrary: prev cur)
  case Nil
  then show ?case by (simp add: remove_scan.simps)
next
  case (Cons a cs)
  then show ?case by (subst remove_scan.simps) simp
qed

lemma scan_list_split:
  "scan_list P prev cs =
     (last (prev # takeWhile P cs), case dropWhile P cs of [] \<Rightarrow> NULL | x # _ \<Rightarrow> x)"
  by (induction cs arbitrary: prev) auto

lemma merge_fields:
  "size_f (merge c l r s) = (size_f s)(l := size_f s l + size_f s r + TOTAL_METADATA_SIZE c)"
  "next_f (merge c l r s) = (next_f s)(l := next_f s r)"
  "address_list (merge c l r s) = address_list s"
  "my_malloc_errno (merge c l r s) = my_malloc_errno s"
  "bytes (merge c l r s) = bytes s"
  "brk (merge c l r s) = brk s"
  "heap_end (merge c l r s) = heap_end s"
  by (simp_all add: merge_def Let_def)

lemma mergeAll_loop_list:
  "seg (next_f s) cur cs NULL \<Longrightarrow> prev \<notin> set cs \<Longrightarrow>
   mergeAll_loop c prev cur i s = Some (loop_list c prev cs i s)"
proof (induction cs arbitrary: prev cur i s)
  case Nil
  then show ?case by (simp add: mergeAll_loop.simps)
next
  case (Cons b rest)
  from Cons.prems have b: "cur = b" "b \<noteq> NULL" "prev \<noteq> b" "prev \<notin> set rest"
    and rest: "seg (next_f s) (next_f s b) rest NULL"
    by auto
  from rest have nb: "b \<notin> set rest" by (rule seg_null_not_hd)
  have m: "seg (next_f (merge c prev b s)) (next_f s b) rest NULL"
    using rest b by (simp add: merge_fields seg_upd)
  show ?case
    using b Cons.IH [OF rest nb, of i] Cons.IH [OF m nb, of True]
    by (subst mergeAll_loop.simps) (simp add: merge_fields)
qed

lemma frame_refl: "frame A s s"
  by (simp add: frame_def)

lemma frame_trans:
  "frame A s s1 \<Longrightarrow> frame B s1 s2 \<Longrightarrow> A \<subseteq> C \<Longrightarrow> B \<subseteq> C \<Longrightarrow> frame C s s2"
  unfolding frame_def by (metis subsetD)

lemma frame_merge: "frame {l} s (merge c l r s)"
  by (simp add: frame_def merge_fields)

lemma frame_size: "frame A s s' \<Longrightarrow> a \<notin> A \<Longrightarrow> size_f s' a = size_f s a"
  by (simp add: frame_def)

lemma frame_next: "frame A s s' \<Longrightarrow> a \<notin> A \<Longrightarrow> next_f s' a = next_f s a"
  by (simp add: frame_def)

lemma frame_seg:
  "frame A s s' \<Longrightarrow> set as \<inter> A = {} \<Longrightarrow> seg (next_f s') p as q \<longleftrightarrow> seg (next_f s) p as q"
  by (rule seg_cong) (auto simp: frame_def)

lemma frame_blocks:
  "frame A s s' \<Longrightarrow> set as \<inter> A = {} \<Longrightarrow> blocks s' as = blocks s as"
  by (auto simp: blocks_def frame_def)

lemma loop_list_frame:
  "frame (insert prev (set cs)) s (snd (loop_list c prev cs i s))"
proof (induction cs arbitrary: prev i s)
  case Nil
  show ?case by (simp add: frame_refl)
next
  case (Cons b rest)
  show ?case
  proof (cases "prev + TOTAL_METADATA_SIZE c + size_f s prev = b")
    case True
    have "frame (insert prev (set (b # rest))) s (snd (loop_list c b rest True (merge c prev b s)))"
      by (rule frame_trans [OF frame_merge Cons.IH]) auto
    with True show ?thesis by simp
  next
    case False
    have "frame (insert prev (set (b # rest))) s (snd (loop_list c b rest i s))"
      by (rule frame_trans [OF frame_refl Cons.IH]) auto
    with False show ?thesis by simp
  qed
qed

lemma length_pass: "length (pass m b bs) \<le> Suc (length bs)"
  by (induction m b bs rule: pass.induct) auto

lemma pass_hd: "\<exists>z' R. pass m (a, z) bs = (a, z') # R"
  by (induction m "(a, z)" bs arbitrary: a z rule: pass.induct) auto

lemma loop_list_pass:
  "seg (next_f s) prev (prev # cs) NULL \<Longrightarrow>
   \<exists>s'. loop_list c prev cs i s =
           (i \<or> length (pass (TOTAL_METADATA_SIZE c) (prev, size_f s prev) (blocks s cs)) < Suc (length cs), s') \<and>
        seg (next_f s') prev
           (map fst (pass (TOTAL_METADATA_SIZE c) (prev, size_f s prev) (blocks s cs))) NULL \<and>
        blocks s' (map fst (pass (TOTAL_METADATA_SIZE c) (prev, size_f s prev) (blocks s cs))) =
           pass (TOTAL_METADATA_SIZE c) (prev, size_f s prev) (blocks s cs) \<and>
        (length (pass (TOTAL_METADATA_SIZE c) (prev, size_f s prev) (blocks s cs)) = Suc (length cs)
           \<longrightarrow> s' = s)"
proof (induction "length cs" arbitrary: prev cs i s rule: less_induct)
  case less
  let ?m = "TOTAL_METADATA_SIZE c"
  note seg0 = less.prems
  then have dist: "distinct (prev # cs)" by (rule seg_null_distinct)
  consider (nil) "cs = []" | (one) b where "cs = [b]" | (more) b r rs where "cs = b # r # rs"
    by (cases cs rule: list.exhaust; cases "tl cs"; auto)
  then show ?case
  proof cases
    case nil
    with seg0 show ?thesis by (simp add: blocks_def)
  next
    case one
    with seg0 have nb: "next_f s prev = b" "next_f s b = NULL" "prev \<noteq> NULL" "prev \<noteq> b" "b \<noteq> NULL"
      using dist by auto
    show ?thesis
      using one nb by (simp add: blocks_def merge_fields)
  next
    case more
    with seg0 dist have nb: "next_f s prev = b" "next_f s b = r" "prev \<noteq> NULL" "b \<noteq> NULL"
      "prev \<noteq> b" "prev \<noteq> r" "b \<noteq> r" "prev \<notin> set rs" "b \<notin> set rs"
      and segr: "seg (next_f s) r (r # rs) NULL" and segb: "seg (next_f s) b (b # r # rs) NULL"
      by auto
    show ?thesis
    proof (cases "prev + ?m + size_f s prev = b")
      case adj: True
      define s1 where "s1 = merge c prev b s"
      define s2 where "s2 = (if b + ?m + size_f s1 b = r then merge c b r s1 else s1)"
      have f1: "frame {prev} s s1" unfolding s1_def by (rule frame_merge)
      have f2: "frame {prev, b} s s2"
        unfolding s2_def using f1 frame_merge [of b s1 c r]
        by (auto intro: frame_trans frame_refl)
      have disj: "set (r # rs) \<inter> {prev, b} = {}"
        using nb by auto
      have segr2: "seg (next_f s2) r (r # rs) NULL"
        using segr frame_seg [OF f2 disj, of r NULL] by blast
      have blk2: "blocks s2 rs = blocks s rs" "size_f s2 r = size_f s r"
        using frame_blocks [OF f2, of rs] frame_size [OF f2, of r] nb by auto
      have p2: "size_f s2 prev = size_f s prev + size_f s b + ?m" "next_f s2 prev = r"
        using nb by (auto simp: s2_def s1_def merge_fields)
      let ?R' = "pass ?m (r, size_f s r) (blocks s rs)"
      have "length rs < length cs" using more by simp
      from less.hyps [OF this segr2, of True] blk2
      obtain s' where s': "loop_list c r rs True s2 = (True, s')"
        "seg (next_f s') r (map fst ?R') NULL" "blocks s' (map fst ?R') = ?R'"
        by auto
      have f3: "frame (insert r (set rs)) s2 s'"
        using loop_list_frame [of r rs s2 c True] s' by simp
      have p3: "size_f s' prev = size_f s prev + size_f s b + ?m" "next_f s' prev = r"
        using frame_size [OF f3, of prev] frame_next [OF f3, of prev] nb p2 by auto
      have "loop_list c prev cs i s = loop_list c r rs True s2"
        using adj more by (simp add: s1_def s2_def)
      with s'(1) have ll: "loop_list c prev cs i s = (True, s')"
        by simp
      have R: "pass ?m (prev, size_f s prev) (blocks s cs)
                 = (prev, size_f s prev + size_f s b + ?m) # ?R'"
        using adj more by (simp add: blocks_def)
      have len: "length ?R' \<le> Suc (length rs)"
        using length_pass [of ?m "(r, size_f s r)" "blocks s rs"] by (simp add: blocks_def)
      show ?thesis
        unfolding R using ll s' p3 nb len more
        by (auto simp: blocks_def)
    next
      case nadj: False
      let ?R' = "pass ?m (b, size_f s b) (blocks s (r # rs))"
      have "length (r # rs) < length cs" using more by simp
      from less.hyps [OF this segb, of i]
      obtain s' where s': "loop_list c b (r # rs) i s = (i \<or> length ?R' < Suc (length (r # rs)), s')"
        "seg (next_f s') b (map fst ?R') NULL" "blocks s' (map fst ?R') = ?R'"
        "length ?R' = Suc (length (r # rs)) \<longrightarrow> s' = s"
        by auto
      have f3: "frame (insert b (set (r # rs))) s s'"
        using loop_list_frame [of b "r # rs" s c i] s' by simp
      have p3: "size_f s' prev = size_f s prev" "next_f s' prev = b"
        using frame_size [OF f3, of prev] frame_next [OF f3, of prev] nb by auto
      have "loop_list c prev cs i s = loop_list c b (r # rs) i s"
        using nadj more by simp
      with s'(1) have ll: "loop_list c prev cs i s = (i \<or> length ?R' < Suc (length (r # rs)), s')"
        by simp
      have R: "pass ?m (prev, size_f s prev) (blocks s cs) = (prev, size_f s prev) # ?R'"
        using nadj more by (simp add: blocks_def)
      show ?thesis
        unfolding R using ll s' p3 nb more
        by (auto simp: blocks_def)
    qed
  qed
qed

lemma subseq_set: "subseq xs ys \<Longrightarrow> set xs \<subseteq> set ys"
  by (induction rule: list_emb.induct) auto

lemma subseq_sorted_wrt:
  "subseq xs ys \<Longrightarrow> sorted_wrt P ys \<Longrightarrow> sorted_wrt P xs"
proof (induction rule: list_emb.induct)
  case (list_emb_Nil ys)
  show ?case by simp
next
  case (list_emb_Cons xs ys y)
  then show ?case by simp
next
  case (list_emb_Cons2 x y xs ys)
  then have "set xs \<subseteq> set ys" by (simp add: subseq_set)
  with list_emb_Cons2 show ?case by auto
qed

lemma pass_subseq: "subseq (map fst (pass m b bs)) (map fst (b # bs))"
  by (induction m b bs rule: pass.induct) auto

lemma pass_fixed:
  "length (pass m b bs) = Suc (length bs) \<Longrightarrow> pass m b bs = b # bs \<and> no_adjacent m (b # bs)"
proof (induction m b bs rule: pass.induct)
  case (1 m a z)
  show ?case by simp
next
  case (2 m a z b y)
  then show ?case by (simp split: if_splits)
next
  case (3 m a z b y r rs)
  have "length (pass m r rs) \<le> Suc (length rs)" by (rule length_pass)
  with 3 show ?case by (simp split: if_splits)
qed

lemma no_adjacent_pass_id: "no_adjacent m (b # bs) \<Longrightarrow> pass m b bs = b # bs"
  by (induction m b bs rule: pass.induct) auto

lemma length_coalesce: "length (coalesce m bs) \<le> length bs"
proof (induction m bs rule: coalesce.induct)
  case (1 m)
  show ?case by simp
next
  case (2 m b bs)
  then show ?case
    using length_pass [of m b bs] by (auto simp del: pass.simps)
qed

lemma coalesce_no_adjacent: "no_adjacent m (coalesce m bs)"
proof (induction m bs rule: coalesce.induct)
  case (1 m)
  show ?case by simp
next
  case (2 m b bs)
  have "length (pass m b bs) \<le> Suc (length bs)" by (rule length_pass)
  with 2 pass_fixed [of m b bs] show ?case by (auto simp del: pass.simps)
qed

lemma coalesce_subseq: "subseq (map fst (coalesce m bs)) (map fst bs)"
proof (induction m bs rule: coalesce.induct)
  case (1 m)
  show ?case by simp
next
  case (2 m b bs)
  then show ?case
    using pass_subseq [of m b bs] by (auto simp del: pass.simps intro: subseq_order.trans)
qed

lemma coalesce_id: "no_adjacent m bs \<Longrightarrow> coalesce m bs = bs"
  by (cases bs) (simp_all add: no_adjacent_pass_id del: pass.simps)

lemma blocks_fst: "map fst (blocks s ps) = ps"
  by (simp add: blocks_def o_def)

lemma free_list_Nil: "free_list s [] \<longleftrightarrow> address_list s = NULL"
  by (simp add: free_list_def)

lemma free_list_Cons:
  "free_list s (p # cs) \<longleftrightarrow> address_list s = p \<and> p \<noteq> NULL \<and> seg (next_f s) (next_f s p) cs NULL"
  by (auto simp: free_list_def)

lemma frame_free_list:
  "frame A s s' \<Longrightarrow> set ps \<inter> A = {} \<Longrightarrow> free_list s' ps \<longleftrightarrow> free_list s ps"
  unfolding free_list_def using frame_seg [of A s s' ps] by (simp add: frame_def)

lemma mergeAll_coalesce:
  "free_list s ps \<Longrightarrow>
   \<exists>s'. mergeAll c s = Some s' \<and>
        free_list s' (map fst (coalesce (TOTAL_METADATA_SIZE c) (blocks s ps))) \<and>
        blocks s' (map fst (coalesce (TOTAL_METADATA_SIZE c) (blocks s ps))) =
          coalesce (TOTAL_METADATA_SIZE c) (blocks s ps) \<and>
        frame (set ps) s s' \<and>
        (no_adjacent (TOTAL_METADATA_SIZE c) (blocks s ps) \<longrightarrow> s' = s)"
proof (induction "length ps" arbitrary: ps s rule: less_induct)
  case less
  let ?m = "TOTAL_METADATA_SIZE c"
  show ?case
  proof (cases ps)
    case Nil
    with less.prems show ?thesis
      by (subst mergeAll.simps) (simp add: free_list_Nil blocks_def frame_refl)
  next
    case (Cons p cs)
    with less.prems have p: "address_list s = p" "p \<noteq> NULL"
      and segc: "seg (next_f s) (next_f s p) cs NULL" and segp: "seg (next_f s) p (p # cs) NULL"
      by (auto simp: free_list_def)
    from segc have pn: "p \<notin> set cs" by (rule seg_null_not_hd)
    let ?R = "pass ?m (p, size_f s p) (blocks s cs)"
    have bl: "blocks s ps = (p, size_f s p) # blocks s cs"
      using Cons by (simp add: blocks_def)
    have lenb: "length (blocks s cs) = length cs" by (simp add: blocks_def)
    from loop_list_pass [OF segp, of c False]
    obtain s1 where s1: "loop_list c p cs False s = (length ?R < Suc (length cs), s1)"
      "seg (next_f s1) p (map fst ?R) NULL" "blocks s1 (map fst ?R) = ?R"
      "length ?R = Suc (length cs) \<longrightarrow> s1 = s"
      by auto
    have f1: "frame (set ps) s s1"
      using loop_list_frame [of p cs s c False] s1 Cons by simp
    have loop: "mergeAll_loop c (address_list s) (next_f s (address_list s)) False s
                  = Some (length ?R < Suc (length cs), s1)"
      using mergeAll_loop_list [OF segc pn, of c False] s1 p by simp
    have fl1: "free_list s1 (map fst ?R)"
      using s1 f1 p by (simp add: free_list_def frame_def)
    show ?thesis
    proof (cases "length ?R < Suc (length cs)")
      case True
      then have "length (map fst ?R) < length ps" using Cons by simp
      from less.hyps [OF this fl1] s1(3)
      obtain s' where s': "mergeAll c s1 = Some s'"
        "free_list s' (map fst (coalesce ?m ?R))"
        "blocks s' (map fst (coalesce ?m ?R)) = coalesce ?m ?R"
        "frame (set (map fst ?R)) s1 s'"
        by auto
      have co: "coalesce ?m (blocks s ps) = coalesce ?m ?R"
        using True by (simp add: bl lenb del: pass.simps)
      have "set (map fst ?R) \<subseteq> set (map fst ((p, size_f s p) # blocks s cs))"
        using pass_subseq [of ?m "(p, size_f s p)" "blocks s cs"]
        by (rule subseq_set)
      then have sub: "set (map fst ?R) \<subseteq> set ps"
        using Cons by (simp add: blocks_fst)
      have f: "frame (set ps) s s'"
        by (rule frame_trans [OF f1 s'(4)]) (use sub in auto)
      have ma: "mergeAll c s = Some s'"
        using p loop True s'(1) by (subst mergeAll.simps) simp
      have "\<not> no_adjacent ?m (blocks s ps)"
        using True no_adjacent_pass_id [of ?m "(p, size_f s p)" "blocks s cs"] lenb
        by (auto simp: bl simp del: pass.simps)
      with ma s' f show ?thesis unfolding co by simp
    next
      case False
      with length_pass [of ?m "(p, size_f s p)" "blocks s cs"] lenb
      have eq: "length ?R = Suc (length cs)" by simp
      with s1 have ss: "s1 = s" by simp
      have co: "coalesce ?m (blocks s ps) = ?R"
        using False by (simp add: bl lenb del: pass.simps)
      have ma: "mergeAll c s = Some s"
        using p loop False ss by (subst mergeAll.simps) simp
      show ?thesis
        unfolding co using ma fl1 s1(3) ss by (simp add: frame_refl)
    qed
  qed
qed

lemma seg_next_hd:
  "seg nx p as NULL \<Longrightarrow> p = (case as of [] \<Rightarrow> NULL | x # _ \<Rightarrow> x)"
  by (cases as) auto

lemma add_to_addr_list_ins:
  assumes fl: "free_list s ps" and ne: "ps \<noteq> []" and bn: "block \<noteq> NULL" and bps: "block \<notin> set ps"
  shows "\<exists>s'. add_to_addr_list block s = Some s' \<and> free_list s' (ins block ps) \<and>
              relinked (insert block (set ps)) s s'"
proof -
  define tw where "tw = takeWhile (\<lambda>a. a < block) ps"
  define dw where "dw = dropWhile (\<lambda>a. a < block) ps"
  define cur where "cur = (case dw of [] \<Rightarrow> NULL | x # _ \<Rightarrow> x)"
  have split: "ps = tw @ dw" by (simp add: tw_def dw_def)
  have insd: "ins block ps = tw @ block # dw" by (simp add: ins_def tw_def dw_def)
  from fl have segp: "seg (next_f s) (address_list s) ps NULL" by (simp add: free_list_def)
  from segp ne have al: "address_list s \<noteq> NULL" by (cases ps) auto
  have dist: "distinct ps" using segp by (rule seg_null_distinct)
  have nn: "NULL \<notin> set ps" using segp by (rule seg_not_null)
  have scan: "add_scan s block NULL (address_list s) = Some (last (NULL # tw), cur)"
    using add_scan_list [OF segp, of block NULL]
    by (simp add: scan_list_split tw_def dw_def cur_def)
  show ?thesis
  proof (cases "tw = []")
    case True
    with split have dw: "dw = ps" by simp
    have cur: "cur = address_list s"
      using seg_next_hd [OF segp] dw by (simp add: cur_def)
    let ?s' = "s\<lparr>address_list := block, next_f := (next_f s)(block := address_list s)\<rparr>"
    have "add_to_addr_list block s = Some ?s'"
      using al scan True bn cur by (simp add: add_to_addr_list_def)
    moreover have "free_list ?s' (ins block ps)"
      using True dw segp bn bps by (simp add: insd free_list_def seg_upd)
    moreover have "relinked (insert block (set ps)) s ?s'"
      by (simp add: relinked_def)
    ultimately show ?thesis by blast
  next
    case False
    then obtain xs pv where tw: "tw = xs @ [pv]"
      by (cases tw rule: rev_cases) auto
    with split have ps: "ps = xs @ pv # dw" by simp
    from dist have d: "pv \<notin> set xs" "pv \<notin> set dw"
      unfolding ps by auto
    have pvn: "pv \<noteq> NULL" "pv \<noteq> block"
      using nn bps unfolding ps by auto
    have bx: "block \<notin> set xs" "block \<notin> set dw"
      using bps unfolding ps by auto
    from segp have "seg (next_f s) (address_list s) (xs @ pv # dw) NULL"
      unfolding ps .
    then have s1: "seg (next_f s) (address_list s) xs pv"
      and s2: "seg (next_f s) (next_f s pv) dw NULL"
      by (auto simp: seg_append)
    have cur: "cur = next_f s pv"
      using seg_next_hd [OF s2] by (simp add: cur_def)
    let ?nx = "(next_f s)(pv := block, block := next_f s pv)"
    let ?s' = "s\<lparr>next_f := ?nx\<rparr>"
    have "add_to_addr_list block s = Some ?s'"
      using al scan tw bn pvn cur by (simp add: add_to_addr_list_def)
    moreover have "free_list ?s' (ins block ps)"
    proof -
      have a: "seg ?nx (address_list s) xs pv"
        using s1 d bx by (simp add: seg_upd)
      have b: "seg ?nx (next_f s pv) dw NULL"
        using s2 d bx by (simp add: seg_upd)
      have "seg ?nx (address_list s) (xs @ pv # block # dw) NULL"
        unfolding seg_append using a b pvn bn by auto
      then show ?thesis
        using tw by (simp add: insd free_list_def)
    qed
    moreover have "relinked (insert block (set ps)) s ?s'"
      unfolding ps by (simp add: relinked_def)
    ultimately show ?thesis by blast
  qed
qed

lemma remove_from_addr_list_remove1:
  assumes fl: "free_list s ps"
  shows "\<exists>s'. remove_from_addr_list block s = Some s' \<and> free_list s' (remove1 block ps) \<and>
              relinked (set ps) s s' \<and> address_list s' \<in> insert NULL (set ps) \<and>
              next_f s' block = next_f s block"
proof (cases "ps = []")
  case True
  with fl show ?thesis
    by (simp add: remove_from_addr_list_def free_list_def relinked_def)
next
  case ne: False
  define tw where "tw = takeWhile (\<lambda>a. a \<noteq> block) ps"
  define dw where "dw = dropWhile (\<lambda>a. a \<noteq> block) ps"
  define cur where "cur = (case dw of [] \<Rightarrow> NULL | x # _ \<Rightarrow> x)"
  have split: "ps = tw @ dw" by (simp add: tw_def dw_def)
  have btw: "block \<notin> set tw"
    unfolding tw_def by (auto dest: set_takeWhileD)
  have dwhd: "dw = [] \<or> (\<exists>ys. dw = block # ys)"
    unfolding dw_def by (cases "dropWhile (\<lambda>a. a \<noteq> block) ps") (auto dest: dropWhile_eq_Cons_conv [THEN iffD1])
  from fl have segp: "seg (next_f s) (address_list s) ps NULL" by (simp add: free_list_def)
  from segp ne have al: "address_list s \<noteq> NULL" "address_list s \<in> set ps" by (cases ps; auto)+
  have dist: "distinct ps" using segp by (rule seg_null_distinct)
  have nn: "NULL \<notin> set ps" using segp by (rule seg_not_null)
  have scan: "remove_scan s block NULL (address_list s) = Some (last (NULL # tw), cur)"
    using remove_scan_list [OF segp, of block NULL]
    by (simp add: scan_list_split tw_def dw_def cur_def)
  show ?thesis
  proof (cases "tw = []")
    case True
    with split ne dwhd obtain ys where ps: "ps = block # ys" and dw: "dw = block # ys"
      by auto
    let ?s' = "s\<lparr>address_list := next_f s block\<rparr>"
    have "remove_from_addr_list block s = Some ?s'"
      using al scan True dw by (simp add: remove_from_addr_list_def cur_def)
    moreover have "free_list ?s' (remove1 block ps)"
      using segp unfolding ps by (simp add: free_list_def)
    moreover have "relinked (set ps) s ?s'"
      by (simp add: relinked_def)
    moreover have "address_list ?s' \<in> insert NULL (set ps)"
      using segp unfolding ps by (cases ys) auto
    moreover have "next_f ?s' block = next_f s block"
      by simp
    ultimately show ?thesis by blast
  next
    case False
    then obtain xs pv where tw: "tw = xs @ [pv]"
      by (cases tw rule: rev_cases) auto
    have pvn: "pv \<noteq> NULL" "pv \<noteq> block"
      using nn btw split tw by auto
    from dwhd show ?thesis
    proof
      assume dw: "dw = []"
      then have "block \<notin> set ps" using btw split by simp
      then have r: "remove1 block ps = ps" by (simp add: remove1_idem)
      have "remove_from_addr_list block s = Some s"
        using al scan tw pvn dw by (simp add: remove_from_addr_list_def cur_def)
      with fl r al show ?thesis by (simp add: relinked_def)
    next
      assume "\<exists>ys. dw = block # ys"
      then obtain ys where dw: "dw = block # ys" by blast
      with split tw have ps: "ps = xs @ pv # block # ys" by simp
      from dist have d: "pv \<notin> set xs" "pv \<notin> set ys" "block \<notin> set xs"
        unfolding ps by auto
      have bnn: "block \<noteq> NULL"
        using nn unfolding ps by auto
      from segp have "seg (next_f s) (address_list s) (xs @ pv # block # ys) NULL"
        unfolding ps .
      then have s1: "seg (next_f s) (address_list s) xs pv"
        and s2: "seg (next_f s) (next_f s block) ys NULL"
        by (auto simp: seg_append)
      let ?nx = "(next_f s)(pv := next_f s block)"
      let ?s' = "s\<lparr>next_f := ?nx\<rparr>"
      have "remove_from_addr_list block s = Some ?s'"
        using al scan tw pvn dw bnn by (simp add: remove_from_addr_list_def cur_def)
      moreover have "free_list ?s' (remove1 block ps)"
      proof -
        have a: "seg ?nx (address_list s) xs pv"
          using s1 d by (simp add: seg_upd)
        have b: "seg ?nx (next_f s block) ys NULL"
          using s2 d by (simp add: seg_upd)
        have "seg ?nx (address_list s) (xs @ pv # ys) NULL"
          unfolding seg_append using a b pvn by auto
        moreover have "remove1 block ps = xs @ pv # ys"
          unfolding ps using d pvn by (simp add: remove1_append)
        ultimately show ?thesis by (simp add: free_list_def)
      qed
      moreover have "relinked (set ps) s ?s'"
        unfolding ps by (simp add: relinked_def)
      moreover have "address_list ?s' \<in> insert NULL (set ps)"
        using al by simp
      moreover have "next_f ?s' block = next_f s block"
        using pvn by simp
      ultimately show ?thesis by blast
    qed
  qed
qed

lemma best_scan_list:
  "seg (next_f s) cur cs NULL \<Longrightarrow>
   best_scan s sz cur bestSize = Some (best_list sz (blocks s cs) bestSize)"
proof (induction cs arbitrary: cur bestSize)
  case Nil
  then show ?case by (simp add: best_scan.simps blocks_def)
next
  case (Cons a cs)
  then show ?case by (subst best_scan.simps) (simp add: blocks_def)
qed

lemma size_scan_list:
  "seg (next_f s) cur cs NULL \<Longrightarrow>
   size_scan s bestSize cur = Some (first_of_size bestSize (blocks s cs))"
proof (induction cs arbitrary: cur)
  case Nil
  then show ?case by (simp add: size_scan.simps blocks_def)
next
  case (Cons a cs)
  then show ?case by (subst size_scan.simps) (simp add: blocks_def)
qed

lemma find_best_fit_list:
  assumes "free_list s ps"
  shows "find_best_fit sz s = Some (best_fit sz (blocks s ps))"
proof (cases ps)
  case Nil
  with assms show ?thesis
    by (simp add: find_best_fit_def free_list_def best_fit_def blocks_def)
next
  case (Cons p cs)
  with assms have "address_list s \<noteq> NULL" and "seg (next_f s) (address_list s) ps NULL"
    by (auto simp: free_list_def)
  then show ?thesis
    by (simp add: find_best_fit_def best_fit_def best_scan_list size_scan_list split: sum.splits)
qed

section \<open>Selecting and taking a block\<close>

lemma errno_upd_simps [simp]:
  "free_list (s\<lparr>my_malloc_errno := e\<rparr>) ps = free_list s ps"
  "blocks (s\<lparr>my_malloc_errno := e\<rparr>) ps = blocks s ps"
  "in_heap c (s\<lparr>my_malloc_errno := e\<rparr>) a = in_heap c s a"
  by (simp_all add: free_list_def blocks_def in_heap_def)

lemma blocks_mem: "(a, z) \<in> set (blocks s ps) \<longleftrightarrow> a \<in> set ps \<and> z = size_f s a"
  by (auto simp: blocks_def)

lemma best_list_Inl: "best_list sz bs best = Inl a \<Longrightarrow> (a, sz) \<in> set bs"
  by (induction sz bs best rule: best_list.induct) (auto split: if_splits)

lemma best_list_Inr:
  "best_list sz bs best = Inr b \<Longrightarrow> b = best \<or> (\<exists>a. (a, b) \<in> set bs \<and> sz < b)"
  by (induction sz bs best rule: best_list.induct) (auto split: if_splits)

lemma first_of_size_mem: "first_of_size b bs = a \<Longrightarrow> a \<noteq> NULL \<Longrightarrow> (a, b) \<in> set bs"
  by (induction b bs rule: first_of_size.induct) (auto split: if_splits)

lemma best_fit_mem:
  assumes "best_fit sz bs = t" and "t \<noteq> NULL"
  shows "\<exists>z. (t, z) \<in> set bs \<and> (z = sz \<or> sz < z \<or> z = 0xffffffff)"
proof (cases "best_list sz bs 0xffffffff")
  case (Inl a)
  with assms have "a = t" by (simp add: best_fit_def)
  with Inl show ?thesis by (auto dest: best_list_Inl)
next
  case (Inr b)
  with assms have "first_of_size b bs = t" by (simp add: best_fit_def)
  with assms have "(t, b) \<in> set bs" by (auto dest: first_of_size_mem)
  with Inr show ?thesis by (auto dest: best_list_Inr)
qed

lemma find_best_fit_valid:
  assumes "free_list s ps" and "find_best_fit sz s = Some t" and "t \<noteq> NULL"
  shows "t \<in> set ps \<and> (size_f s t = sz \<or> sz < size_f s t \<or> size_f s t = 0xffffffff)"
proof -
  from assms(1,2) have "best_fit sz (blocks s ps) = t"
    by (simp add: find_best_fit_list)
  from best_fit_mem [OF this assms(3)] show ?thesis
    by (auto simp: blocks_mem)
qed

text \<open>Word arithmetic for blocks that lie inside the address space.\<close>

lemma unat_block_end:
  fixes a m z :: "64 word"
  assumes "unat a + unat m + unat z \<le> unat (lim :: 64 word)"
  shows "unat (a + m + z) = unat a + unat m + unat z" and "unat (a + m) = unat a + unat m"
  using assms by unat_arith+

lemma payload_not_null:
  fixes a m z :: "64 word"
  assumes "unat a + unat m + unat z \<le> unat (lim :: 64 word)" and "a \<noteq> 0"
  shows "a + m \<noteq> 0"
  using assms by unat_arith

lemma tail_not_null:
  fixes a m z sz :: "64 word"
  assumes "unat a + unat m + unat z \<le> unat (lim :: 64 word)" and "a \<noteq> 0" and "sz < z"
  shows "a + m + z - (sz + m) \<noteq> 0" and "a + m + z - (sz + m) + m \<noteq> 0"
    and "a < a + m + z - (sz + m)"
    and "unat (a + m + z - (sz + m)) = unat a + unat z - unat sz"
  using assms by unat_arith+

lemma relinked_free_list_size:
  "relinked A s s' \<Longrightarrow> blocks s' ps = blocks s ps"
  by (simp add: relinked_def blocks_def)

lemma take_block_split:
  assumes "t \<noteq> NULL" and "in_heap c s t" and "sz < size_f s t"
    and "sz + TOTAL_METADATA_SIZE c + 1 \<le> size_f s t"
  shows "take_block c t sz s =
           Some (t + TOTAL_METADATA_SIZE c + size_f s t - (sz + TOTAL_METADATA_SIZE c) + TOTAL_METADATA_SIZE c,
                 s\<lparr>size_f := (size_f s)
                      (t := size_f s t - (sz + TOTAL_METADATA_SIZE c),
                       t + TOTAL_METADATA_SIZE c + size_f s t - (sz + TOTAL_METADATA_SIZE c) := sz),
                   my_malloc_errno := NO_ERROR\<rparr>)"
proof -
  define ret where "ret = t + TOTAL_METADATA_SIZE c + size_f s t - (sz + TOTAL_METADATA_SIZE c)"
  have rn: "ret \<noteq> NULL"
    using tail_not_null(1) [of t "TOTAL_METADATA_SIZE c" "size_f s t" "brk s" sz] assms(1,2,3)
    by (simp add: in_heap_def ret_def)
  have sb: "split_block c t sz s =
              Some (ret, s\<lparr>size_f := (size_f s)(t := size_f s t - (sz + TOTAL_METADATA_SIZE c), ret := sz)\<rparr>)"
    unfolding split_block_def Let_def ret_def [symmetric] using rn by simp
  have ne: "size_f s t \<noteq> sz"
    using assms(3) by auto
  have "take_block c t sz s =
          Some (ret + TOTAL_METADATA_SIZE c,
                s\<lparr>size_f := (size_f s)(t := size_f s t - (sz + TOTAL_METADATA_SIZE c), ret := sz),
                  my_malloc_errno := NO_ERROR\<rparr>)"
    unfolding take_block_def using ne assms(3,4) sb by simp
  then show ?thesis
    unfolding ret_def .
qed

lemma take_block_unsplit:
  assumes "free_list s ps"
    and "size_f s t = sz \<or> (sz < size_f s t \<and> \<not> sz + TOTAL_METADATA_SIZE c + 1 \<le> size_f s t)"
  shows "\<exists>s'. take_block c t sz s = Some (t + TOTAL_METADATA_SIZE c, s') \<and>
              free_list s' (remove1 t ps) \<and>
              relinked (set ps) (s\<lparr>my_malloc_errno := NO_ERROR\<rparr>) s' \<and>
              next_f s' t = next_f s t"
proof -
  from remove_from_addr_list_remove1 [OF assms(1), of t]
  obtain s1 where s1: "remove_from_addr_list t s = Some s1" "free_list s1 (remove1 t ps)"
    "relinked (set ps) s s1" "next_f s1 t = next_f s t"
    by blast
  have fl: "free_list (s\<lparr>my_malloc_errno := NO_ERROR\<rparr>) ps"
    using assms(1) by simp
  from remove_from_addr_list_remove1 [OF fl, of t]
  obtain s2 where s2: "remove_from_addr_list t (s\<lparr>my_malloc_errno := NO_ERROR\<rparr>) = Some s2"
    "free_list s2 (remove1 t ps)"
    "relinked (set ps) (s\<lparr>my_malloc_errno := NO_ERROR\<rparr>) s2" "next_f s2 t = next_f s t"
    by auto
  from assms(2) show ?thesis
  proof
    assume "size_f s t = sz"
    then have "take_block c t sz s = Some (t + TOTAL_METADATA_SIZE c, s1\<lparr>my_malloc_errno := NO_ERROR\<rparr>)"
      using s1 by (simp add: take_block_def)
    moreover have "relinked (set ps) (s\<lparr>my_malloc_errno := NO_ERROR\<rparr>) (s1\<lparr>my_malloc_errno := NO_ERROR\<rparr>)"
      using s1(3) by (simp add: relinked_def)
    ultimately show ?thesis using s1 by simp
  next
    assume a: "sz < size_f s t \<and> \<not> sz + TOTAL_METADATA_SIZE c + 1 \<le> size_f s t"
    then have "size_f s t \<noteq> sz" by auto
    with a have "take_block c t sz s = Some (t + TOTAL_METADATA_SIZE c, s2)"
      using s2 by (simp add: take_block_def)
    with s2 show ?thesis by simp
  qed
qed

lemma find_best_fit_errno [simp]:
  assumes "free_list s ps"
  shows "find_best_fit sz (s\<lparr>my_malloc_errno := e\<rparr>) = find_best_fit sz s"
proof -
  have "free_list (s\<lparr>my_malloc_errno := e\<rparr>) ps" using assms by simp
  then show ?thesis using assms by (simp add: find_best_fit_list)
qed

lemma my_malloc_direct:
  assumes "free_list s ps" and "sz \<noteq> 0" and "sz \<le> SBRK_SIZE c - TOTAL_METADATA_SIZE c"
    and "find_best_fit sz s = Some t" and "t \<noteq> NULL"
  shows "my_malloc c sz s = take_block c t sz (s\<lparr>my_malloc_errno := NO_ERROR\<rparr>)"
  using assms find_best_fit_errno [OF assms(1), of sz NO_ERROR]
  by (simp add: my_malloc_def Let_def not_less [symmetric])

section \<open>Boundary cases of \<^verbatim>\<open>my_malloc\<close>\<close>

text \<open>
  Claim C8. \<^verbatim>\<open>my_malloc(0)\<close> returns \<^verbatim>\<open>NULL\<close> with the error state \<open>NO_ERROR\<close>, and a request
  larger than \<^verbatim>\<open>SBRK_SIZE - TOTAL_METADATA_SIZE\<close> returns \<^verbatim>\<open>NULL\<close> with the error state
  \<open>SINGLE_REQUEST_TOO_LARGE\<close>; in both cases nothing but the error state changes: the free
  list, the headers, the payload bytes and the heap boundary are those of the call.
\<close>

theorem C8_boundary:
  "my_malloc c 0 s = Some (NULL, s\<lparr>my_malloc_errno := NO_ERROR\<rparr>) \<and>
   (SBRK_SIZE c - TOTAL_METADATA_SIZE c < sz \<longrightarrow>
      my_malloc c sz s = Some (NULL, s\<lparr>my_malloc_errno := SINGLE_REQUEST_TOO_LARGE\<rparr>))"
  by (simp add: my_malloc_def Let_def)

theorem C8_boundary_witness:
  "SBRK_SIZE cfg0 - TOTAL_METADATA_SIZE cfg0 < 2033 \<and>
   my_malloc cfg0 2033 heap0 = Some (NULL, heap0\<lparr>my_malloc_errno := SINGLE_REQUEST_TOO_LARGE\<rparr>) \<and>
   my_malloc cfg0 0 heap0 = Some (NULL, heap0\<lparr>my_malloc_errno := NO_ERROR\<rparr>)"
  using C8_boundary [of cfg0 heap0 2033] by (simp add: cfg0_def)

text \<open>\<^verbatim>\<open>my_malloc\<close> overwrites the error state before it reads anything.\<close>

lemma my_malloc_errno_irrelevant:
  "my_malloc c sz (s\<lparr>my_malloc_errno := e\<rparr>) = my_malloc c sz s"
  by (simp add: my_malloc_def)

section \<open>\<^verbatim>\<open>my_calloc\<close>\<close>

text \<open>
  Claim C9. \<^verbatim>\<open>my_calloc(nmemb, size)\<close> asks \<^verbatim>\<open>my_malloc\<close> for the machine product
  \<open>nmemb * size\<close> (a 64-bit multiplication, which wraps). When \<^verbatim>\<open>my_malloc\<close> returns
  \<^verbatim>\<open>NULL\<close>, so does \<^verbatim>\<open>my_calloc\<close>, with the state (and so the error state) \<^verbatim>\<open>my_malloc\<close>
  left. When \<^verbatim>\<open>my_malloc\<close> returns a block, \<^verbatim>\<open>my_calloc\<close> returns the same block, its first
  \<open>nmemb * size\<close> bytes are zero, and nothing else differs from the state \<^verbatim>\<open>my_malloc\<close> left.
\<close>

theorem C9_calloc:
  "(my_malloc c (nmemb * sz) s = Some (NULL, s1) \<longrightarrow> my_calloc c nmemb sz s = Some (NULL, s1)) \<and>
   (my_malloc c (nmemb * sz) s = Some (p, s1) \<and> p \<noteq> NULL \<longrightarrow>
      (\<exists>s2. my_calloc c nmemb sz s = Some (p, s2) \<and>
            (\<forall>i. i < nmemb * sz \<longrightarrow> bytes s2 (p + i) = 0) \<and>
            (\<forall>a. \<not> a - p < nmemb * sz \<longrightarrow> bytes s2 a = bytes s1 a) \<and>
            s2 = s1\<lparr>bytes := bytes s2\<rparr>))"
  by (simp add: my_calloc_def my_malloc_errno_irrelevant memset_def)

theorem C9_calloc_witness:
  "my_malloc cfg0 (9223372036854775808 * 2) heap0 = Some (NULL, heap0) \<and>
   my_calloc cfg0 9223372036854775808 2 heap0 = Some (NULL, heap0) \<and>
   (\<exists>s1. my_malloc cfg0 (25 * 4) heap0 = Some (6044, s1) \<and> (6044::addr) \<noteq> NULL \<and>
      (\<exists>s2. my_calloc cfg0 25 4 heap0 = Some (6044, s2) \<and>
            (\<forall>i. i < 25 * 4 \<longrightarrow> bytes s2 (6044 + i) = 0)))"
proof -
  have a: "my_malloc cfg0 (9223372036854775808 * 2) heap0 = Some (NULL, heap0)"
    by code_simp
  have "map_option fst (my_malloc cfg0 (25 * 4) heap0) = Some 6044"
    by code_simp
  then obtain s1 where b: "my_malloc cfg0 (25 * 4) heap0 = Some (6044, s1)"
    by (cases "my_malloc cfg0 (25 * 4) heap0") auto
  from C9_calloc [of cfg0 9223372036854775808 2 heap0 heap0 6044] a
  have c: "my_calloc cfg0 9223372036854775808 2 heap0 = Some (NULL, heap0)"
    by blast
  from C9_calloc [of cfg0 25 4 heap0 s1 6044] b
  have d: "\<exists>s2. my_calloc cfg0 25 4 heap0 = Some (6044, s2) \<and>
            (\<forall>i. i < 25 * 4 \<longrightarrow> bytes s2 (6044 + i) = 0)"
    by auto
  show ?thesis using a b c d by simp
qed

section \<open>\<^verbatim>\<open>mergeAll\<close>\<close>

lemma merge_segment:
  assumes "seg (next_f s) l (l # r # rest) NULL"
  shows "seg (next_f (merge c l r s)) l (l # rest) NULL"
proof -
  from assms have "distinct (l # r # rest)" by (rule seg_null_distinct)
  with assms show ?thesis by (simp add: merge_fields seg_upd)
qed

text \<open>
  Claim C3. On an address-sorted free list \<^verbatim>\<open>mergeAll\<close> returns; the list it leaves is a
  subsequence of the old one, still sorted, and for no entry does address plus header size
  plus size equal the address of the next entry. A single \<^verbatim>\<open>merge\<close> of two neighbours of
  the list removes the right one from the list and gives the left one the size
  \<^verbatim>\<open>left->size + right->size + TOTAL_METADATA_SIZE\<close>.
\<close>

theorem C3_mergeAll:
  assumes "free_list s ps" and "sorted_wrt (<) ps"
  shows "(\<exists>s' ps'. mergeAll c s = Some s' \<and> free_list s' ps' \<and> subseq ps' ps \<and>
            sorted_wrt (<) ps' \<and> no_adjacent (TOTAL_METADATA_SIZE c) (blocks s' ps')) \<and>
         (\<forall>l r rest. seg (next_f s) l (l # r # rest) NULL \<longrightarrow>
            seg (next_f (merge c l r s)) l (l # rest) NULL \<and>
            size_f (merge c l r s) l = size_f s l + size_f s r + TOTAL_METADATA_SIZE c)"
proof -
  let ?bs = "coalesce (TOTAL_METADATA_SIZE c) (blocks s ps)"
  from mergeAll_coalesce [OF assms(1), of c]
  obtain s' where s': "mergeAll c s = Some s'" "free_list s' (map fst ?bs)"
    "blocks s' (map fst ?bs) = ?bs"
    by blast
  have sub: "subseq (map fst ?bs) ps"
    using coalesce_subseq [of "TOTAL_METADATA_SIZE c" "blocks s ps"] by (simp add: blocks_fst)
  then have "sorted_wrt (<) (map fst ?bs)"
    using assms(2) by (rule subseq_sorted_wrt)
  moreover have "no_adjacent (TOTAL_METADATA_SIZE c) (blocks s' (map fst ?bs))"
    unfolding s'(3) by (rule coalesce_no_adjacent)
  ultimately have a: "\<exists>s' ps'. mergeAll c s = Some s' \<and> free_list s' ps' \<and> subseq ps' ps \<and>
            sorted_wrt (<) ps' \<and> no_adjacent (TOTAL_METADATA_SIZE c) (blocks s' ps')"
    using s' sub by blast
  have b: "\<forall>l r rest. seg (next_f s) l (l # r # rest) NULL \<longrightarrow>
            seg (next_f (merge c l r s)) l (l # rest) NULL \<and>
            size_f (merge c l r s) l = size_f s l + size_f s r + TOTAL_METADATA_SIZE c"
  proof (intro allI impI conjI)
    fix l r rest
    assume "seg (next_f s) l (l # r # rest) NULL"
    then show "seg (next_f (merge c l r s)) l (l # rest) NULL"
      by (rule merge_segment)
    show "size_f (merge c l r s) l = size_f s l + size_f s r + TOTAL_METADATA_SIZE c"
      by (simp add: merge_fields)
  qed
  from a b show ?thesis by (rule conjI)
qed

theorem C3_mergeAll_witness:
  "free_list heap_adj [4096, 4200, 4316, 5000] \<and> sorted_wrt (<) [4096, 4200, 4316, 5000 :: addr] \<and>
   (\<exists>s'. mergeAll cfg0 heap_adj = Some s' \<and> free_list s' [4096, 5000] \<and>
      blocks s' [4096, 5000] = [(4096, 270), (5000, 60)] \<and>
      no_adjacent (TOTAL_METADATA_SIZE cfg0) (blocks s' [4096, 5000])) \<and>
   seg (next_f heap_adj) 4096 [4096, 4200, 4316, 5000] NULL \<and>
   seg (next_f (merge cfg0 4096 4200 heap_adj)) 4096 [4096, 4316, 5000] NULL \<and>
   size_f (merge cfg0 4096 4200 heap_adj) 4096 = 88 + 100 + 16"
proof -
  have fl: "free_list heap_adj [4096, 4200, 4316, 5000]"
    by (simp add: free_list_def heap_adj_def)
  have so: "sorted_wrt (<) [4096, 4200, 4316, 5000 :: addr]"
    by simp
  have sg: "seg (next_f heap_adj) 4096 [4096, 4200, 4316, 5000] NULL"
    by (simp add: heap_adj_def)
  from C3_mergeAll [OF fl so, of cfg0]
  obtain s' ps' where s': "mergeAll cfg0 heap_adj = Some s'" "free_list s' ps'"
      "no_adjacent (TOTAL_METADATA_SIZE cfg0) (blocks s' ps')"
    and mg: "seg (next_f (merge cfg0 4096 4200 heap_adj)) 4096 [4096, 4316, 5000] NULL"
      "size_f (merge cfg0 4096 4200 heap_adj) 4096 = size_f heap_adj 4096 + size_f heap_adj 4200 + TOTAL_METADATA_SIZE cfg0"
    using sg by blast
  have ev: "map_option (\<lambda>s'. (free_list s' [4096, 5000], blocks s' [4096, 5000])) (mergeAll cfg0 heap_adj)
              = Some (True, [(4096, 270), (5000, 60)])"
    by code_simp
  with s' have "free_list s' [4096, 5000]" "blocks s' [4096, 5000] = [(4096, 270), (5000, 60)]"
    by auto
  moreover from this(1) s'(2) have "ps' = [4096, 5000]"
    unfolding free_list_def by (rule seg_null_unique [rotated])
  ultimately show ?thesis
    using fl so sg s' mg by (auto simp: heap_adj_def cfg0_def)
qed

section \<open>The partition invariant\<close>

text \<open>
  Claim C1 says that at every point the live allocations and the free-list blocks are
  disjoint. The code breaks it: \<^verbatim>\<open>add_to_addr_list\<close> does not write \<^verbatim>\<open>block->next\<close> when the list
  is empty, and \<^verbatim>\<open>remove_from_addr_list\<close> leaves the old \<^verbatim>\<open>next\<close> in the block it unlinks.
  From the empty heap, six calls put the header of the live allocation \<open>p5\<close> (returned by the
  fifth call and never released) on the free list, and the seventh call hands \<open>p5\<close> out a
  second time.
\<close>

theorem C1_live_block_on_free_list:
  "(do {
      (p1, s1) \<leftarrow> my_malloc cfg0 100 heap0;
      (p2, s2) \<leftarrow> my_malloc cfg0 100 s1;
      s3 \<leftarrow> my_free cfg0 p1 s2;
      (p4, s4) \<leftarrow> my_malloc cfg0 1800 s3;
      (p5, s5) \<leftarrow> my_malloc cfg0 100 s4;
      s6 \<leftarrow> my_free cfg0 p4 s5;
      (p7, s7) \<leftarrow> my_malloc cfg0 100 s6;
      Some (p1, p2, p4, p5, free_list s5 [], free_list s6 [4096, p5 - TOTAL_METADATA_SIZE cfg0], p7)
    }) = Some (6044, 5928, 4112, 6044, True, True, 6044)"
  by code_simp

section \<open>\<^verbatim>\<open>find_best_fit\<close>\<close>

lemma best_list_exact:
  "(a, sz) \<in> set bs \<Longrightarrow> \<exists>r. best_list sz bs best = Inl r \<and> (r, sz) \<in> set bs"
  by (induction sz bs best rule: best_list.induct) auto

lemma best_list_least:
  "\<forall>(a, z)\<in>set bs. z \<noteq> sz \<Longrightarrow>
   \<exists>m. best_list sz bs best = Inr m \<and> m \<le> best \<and>
       (\<forall>(a, z)\<in>set bs. sz < z \<longrightarrow> m \<le> z) \<and>
       (m = best \<or> (\<exists>a. (a, m) \<in> set bs \<and> sz < m))"
proof (induction sz bs best rule: best_list.induct)
  case (1 sz bestSize)
  show ?case by simp
next
  case (2 sz a z bs bestSize)
  then have ne: "z \<noteq> sz" and rest: "\<forall>(a, z)\<in>set bs. z \<noteq> sz" by auto
  show ?case
  proof (cases "sz < z \<and> z < bestSize")
    case True
    from 2(1) [OF ne True rest]
    obtain m where m: "best_list sz bs z = Inr m" "m \<le> z"
      "\<forall>(a, z)\<in>set bs. sz < z \<longrightarrow> m \<le> z" "m = z \<or> (\<exists>a. (a, m) \<in> set bs \<and> sz < m)"
      by blast
    have "best_list sz ((a, z) # bs) bestSize = Inr m"
      using ne True m(1) by simp
    moreover have "m \<le> bestSize" using m(2) True by auto
    moreover have "\<forall>(a', z')\<in>set ((a, z) # bs). sz < z' \<longrightarrow> m \<le> z'"
      using m(2,3) by auto
    moreover have "m = bestSize \<or> (\<exists>a'. (a', m) \<in> set ((a, z) # bs) \<and> sz < m)"
      using m(4) True by auto
    ultimately show ?thesis by blast
  next
    case False
    from 2(2) [OF ne False rest]
    obtain m where m: "best_list sz bs bestSize = Inr m" "m \<le> bestSize"
      "\<forall>(a, z)\<in>set bs. sz < z \<longrightarrow> m \<le> z"
      "m = bestSize \<or> (\<exists>a. (a, m) \<in> set bs \<and> sz < m)"
      by blast
    have "best_list sz ((a, z) # bs) bestSize = Inr m"
      using ne False m(1) by auto
    moreover have "\<forall>(a', z')\<in>set ((a, z) # bs). sz < z' \<longrightarrow> m \<le> z'"
      using m(2,3) False by auto
    moreover have "m = bestSize \<or> (\<exists>a'. (a', m) \<in> set ((a, z) # bs) \<and> sz < m)"
      using m(4) by auto
    ultimately show ?thesis using m(2) by blast
  qed
qed

lemma first_of_size_find:
  "first_of_size m bs = (case find (\<lambda>b. snd b = m) bs of None \<Rightarrow> NULL | Some b \<Rightarrow> fst b)"
  by (induction m bs rule: first_of_size.induct) auto

text \<open>
  As long as every free block is smaller than \<^verbatim>\<open>0xffffffff\<close>, \<^verbatim>\<open>find_best_fit\<close> does what its
  comment says: an exact match if there is one, otherwise the first block of the least
  size above the request, and \<^verbatim>\<open>NULL\<close> exactly when no block is large enough.
\<close>

lemma find_best_fit_small_sizes:
  assumes fl: "free_list s ps" and small: "\<forall>a\<in>set ps. size_f s a < 0xffffffff"
  shows "\<exists>r. find_best_fit sz s = Some r \<and>
           ((\<exists>a\<in>set ps. size_f s a = sz) \<longrightarrow> r \<in> set ps \<and> size_f s r = sz) \<and>
           ((\<forall>a\<in>set ps. size_f s a \<noteq> sz) \<and> (\<exists>a\<in>set ps. sz < size_f s a) \<longrightarrow>
              r \<in> set ps \<and> sz < size_f s r \<and>
              (\<forall>a\<in>set ps. sz < size_f s a \<longrightarrow> size_f s r \<le> size_f s a) \<and>
              find (\<lambda>a. size_f s a = size_f s r) ps = Some r) \<and>
           (r = NULL \<longleftrightarrow> (\<forall>a\<in>set ps. size_f s a < sz))"
proof -
  let ?bs = "blocks s ps"
  from fl have nn: "NULL \<notin> set ps"
    unfolding free_list_def by (rule seg_not_null)
  have fb: "find_best_fit sz s = Some (best_fit sz ?bs)"
    using fl by (rule find_best_fit_list)
  have find_map: "find (\<lambda>b. snd b = m) (blocks s qs) = map_option (\<lambda>a. (a, size_f s a)) (find (\<lambda>a. size_f s a = m) qs)"
    for m qs
    by (induction qs) (auto simp: blocks_def)
  show ?thesis
  proof (cases "\<exists>a\<in>set ps. size_f s a = sz")
    case True
    then obtain a where "(a, sz) \<in> set ?bs" by (auto simp: blocks_mem)
    from best_list_exact [OF this, where best = "0xffffffff"]
    obtain r where r: "best_list sz ?bs 0xffffffff = Inl r" "(r, sz) \<in> set ?bs" by blast
    then have "best_fit sz ?bs = r" "r \<in> set ps" "size_f s r = sz"
      by (auto simp: best_fit_def blocks_mem)
    with fb nn True show ?thesis by auto
  next
    case False
    then have "\<forall>(a, z)\<in>set ?bs. z \<noteq> sz" by (auto simp: blocks_mem)
    from best_list_least [OF this, where best = "0xffffffff"]
    obtain m where m: "best_list sz ?bs 0xffffffff = Inr m"
      "\<forall>(a, z)\<in>set ?bs. sz < z \<longrightarrow> m \<le> z"
      "m = 0xffffffff \<or> (\<exists>a. (a, m) \<in> set ?bs \<and> sz < m)"
      by blast
    have bf: "best_fit sz ?bs = (case find (\<lambda>a. size_f s a = m) ps of None \<Rightarrow> NULL | Some a \<Rightarrow> a)"
      using m(1) by (simp add: best_fit_def first_of_size_find find_map split: option.splits)
    show ?thesis
    proof (cases "\<exists>a\<in>set ps. sz < size_f s a")
      case big: True
      then obtain a where a: "a \<in> set ps" "sz < size_f s a" by blast
      with m(2) have "m \<le> size_f s a" by (auto simp: blocks_mem)
      with small a have "m \<noteq> 0xffffffff" by auto
      with m(3) obtain b where b: "b \<in> set ps" "size_f s b = m" "sz < m"
        by (auto simp: blocks_mem)
      then obtain r where r: "find (\<lambda>a. size_f s a = m) ps = Some r"
        by (cases "find (\<lambda>a. size_f s a = m) ps") (auto simp: find_None_iff)
      then have rr: "r \<in> set ps" "size_f s r = m"
        by (auto simp: find_Some_iff in_set_conv_nth)
      have "best_fit sz ?bs = r" using bf r by simp
      moreover have "\<forall>a\<in>set ps. sz < size_f s a \<longrightarrow> size_f s r \<le> size_f s a"
        using m(2) rr by (auto simp: blocks_mem)
      moreover have "r \<noteq> NULL" using rr nn by auto
      moreover have "\<not> (\<forall>a\<in>set ps. size_f s a < sz)"
        using a by (auto simp: not_less intro: less_imp_le)
      ultimately show ?thesis
        using fb False rr r b by auto
    next
      case nobig: False
      with False have all: "\<forall>a\<in>set ps. size_f s a < sz"
        by (auto simp: not_less order_le_less)
      from nobig m(3) have "m = 0xffffffff" by (auto simp: blocks_mem)
      with small have "find (\<lambda>a. size_f s a = m) ps = None"
        by (auto simp: find_None_iff)
      with bf have "best_fit sz ?bs = NULL" by simp
      with fb False nobig all show ?thesis by auto
    qed
  qed
qed

text \<open>
  Claim C4 says that \<^verbatim>\<open>find_best_fit\<close> returns \<^verbatim>\<open>NULL\<close> only when no block is large enough,
  and otherwise a block of the least sufficient size. With \<^verbatim>\<open>bestSize\<close> starting at
  \<^verbatim>\<open>0xffffffff\<close> the code does neither once a size reaches \<open>2^32 - 1\<close>: a free block of
  \<open>2^32\<close> bytes is not found for a request of 100 bytes, and a free block of \<open>2^32 - 1\<close>
  bytes is returned for a request of \<open>2^32 + 4\<close> bytes.
\<close>

theorem C4_large_block_not_found:
  "free_list heap_big [4096] \<and> size_f heap_big 4096 = 4294967296 \<and>
   find_best_fit 100 heap_big = Some NULL \<and>
   free_list heap_max [4096] \<and> size_f heap_max 4096 = 4294967295 \<and>
   find_best_fit 4294967300 heap_max = Some 4096"
  by code_simp

section \<open>Splitting in \<^verbatim>\<open>my_malloc\<close>\<close>

text \<open>
  Claim C5. Let \<^verbatim>\<open>my_malloc\<close> have selected a block \<open>t\<close> of the free list that lies inside the
  heap and is larger than the request. If \<^verbatim>\<open>t->size >= size + TOTAL_METADATA_SIZE + 1\<close>, the
  block returned has its header at \<^verbatim>\<open>t + TOTAL_METADATA_SIZE + t->size - (size + TOTAL_METADATA_SIZE)\<close>,
  it ends where \<open>t\<close> ended, its size field is the request, the free list (head and links) is
  untouched, and \<open>t\<close> stays in it with its size reduced by \<^verbatim>\<open>size + TOTAL_METADATA_SIZE\<close>.
  Otherwise \<open>t\<close> itself is returned, removed from the free list, with all size fields as
  before. \<open>take_block\<close> is what \<^verbatim>\<open>my_malloc\<close> runs on the block it selected, on both of its
  paths; the last part is the path without heap extension.
\<close>

theorem C5_split_or_unsplit:
  assumes "free_list s ps" and "t \<in> set ps" and "in_heap c s t" and "sz < size_f s t"
  shows "(sz + TOTAL_METADATA_SIZE c + 1 \<le> size_f s t \<longrightarrow>
            (\<exists>s'. take_block c t sz s =
                    Some (t + TOTAL_METADATA_SIZE c + size_f s t - (sz + TOTAL_METADATA_SIZE c)
                            + TOTAL_METADATA_SIZE c, s') \<and>
                 free_list s' ps \<and> address_list s' = address_list s \<and> next_f s' = next_f s \<and>
                 size_f s' (t + TOTAL_METADATA_SIZE c + size_f s t - (sz + TOTAL_METADATA_SIZE c)) = sz \<and>
                 size_f s' t = size_f s t - (sz + TOTAL_METADATA_SIZE c) \<and>
                 t + TOTAL_METADATA_SIZE c + size_f s t - (sz + TOTAL_METADATA_SIZE c)
                   + TOTAL_METADATA_SIZE c + sz = t + TOTAL_METADATA_SIZE c + size_f s t)) \<and>
         (\<not> sz + TOTAL_METADATA_SIZE c + 1 \<le> size_f s t \<longrightarrow>
            (\<exists>s'. take_block c t sz s = Some (t + TOTAL_METADATA_SIZE c, s') \<and>
                 free_list s' (remove1 t ps) \<and> t \<notin> set (remove1 t ps) \<and>
                 size_f s' = size_f s)) \<and>
         (sz \<noteq> 0 \<and> sz \<le> SBRK_SIZE c - TOTAL_METADATA_SIZE c \<and> find_best_fit sz s = Some t \<longrightarrow>
            my_malloc c sz s = take_block c t sz (s\<lparr>my_malloc_errno := NO_ERROR\<rparr>))"
proof (intro conjI impI)
  let ?m = "TOTAL_METADATA_SIZE c"
  let ?ret = "t + ?m + size_f s t - (sz + ?m)"
  from assms(1) have nn: "NULL \<notin> set ps" and dist: "distinct ps"
    unfolding free_list_def by (rule seg_not_null, rule seg_null_distinct)
  with assms(2) have tn: "t \<noteq> NULL" by auto
  {
    assume big: "sz + ?m + 1 \<le> size_f s t"
    let ?s' = "s\<lparr>size_f := (size_f s)(t := size_f s t - (sz + ?m), ?ret := sz),
                 my_malloc_errno := NO_ERROR\<rparr>"
    have tb: "take_block c t sz s = Some (?ret + ?m, ?s')"
      using tn assms(3,4) big by (rule take_block_split)
    have "t < ?ret"
      using tail_not_null(3) [of t ?m "size_f s t" "brk s" sz] assms(3,4) tn
      by (simp add: in_heap_def)
    then have "size_f ?s' t = size_f s t - (sz + ?m)" by auto
    moreover have "free_list ?s' ps"
      using assms(1) by (simp add: free_list_def)
    ultimately show "\<exists>s'. take_block c t sz s = Some (?ret + ?m, s') \<and>
                 free_list s' ps \<and> address_list s' = address_list s \<and> next_f s' = next_f s \<and>
                 size_f s' ?ret = sz \<and> size_f s' t = size_f s t - (sz + ?m) \<and>
                 ?ret + ?m + sz = t + ?m + size_f s t"
      using tb by simp
  }
  {
    assume small: "\<not> sz + ?m + 1 \<le> size_f s t"
    with assms(4) have "size_f s t = sz \<or> (sz < size_f s t \<and> \<not> sz + ?m + 1 \<le> size_f s t)"
      by simp
    from take_block_unsplit [OF assms(1) this]
    obtain s' where "take_block c t sz s = Some (t + ?m, s')" "free_list s' (remove1 t ps)"
      "relinked (set ps) (s\<lparr>my_malloc_errno := NO_ERROR\<rparr>) s'"
      by blast
    moreover have "t \<notin> set (remove1 t ps)"
      using dist by simp
    ultimately show "\<exists>s'. take_block c t sz s = Some (t + ?m, s') \<and>
                 free_list s' (remove1 t ps) \<and> t \<notin> set (remove1 t ps) \<and> size_f s' = size_f s"
      by (auto simp: relinked_def)
  }
  {
    assume "sz \<noteq> 0 \<and> sz \<le> SBRK_SIZE c - ?m \<and> find_best_fit sz s = Some t"
    then show "my_malloc c sz s = take_block c t sz (s\<lparr>my_malloc_errno := NO_ERROR\<rparr>)"
      using my_malloc_direct [OF assms(1), of sz c t] tn by simp
  }
qed

theorem C5_split_or_unsplit_witness:
  "free_list heap_adj [4096, 4200, 4316, 5000] \<and> in_heap cfg0 heap_adj 4200 \<and>
   in_heap cfg0 heap_adj 4316 \<and> (20 :: size_t) < size_f heap_adj 4200 \<and>
   20 + TOTAL_METADATA_SIZE cfg0 + 1 \<le> size_f heap_adj 4200 \<and>
   (\<exists>s'. take_block cfg0 4200 20 heap_adj = Some (4296, s') \<and>
        free_list s' [4096, 4200, 4316, 5000] \<and> size_f s' 4280 = 20 \<and> size_f s' 4200 = 64) \<and>
   (40 :: size_t) < size_f heap_adj 4316 \<and> \<not> 40 + TOTAL_METADATA_SIZE cfg0 + 1 \<le> size_f heap_adj 4316 \<and>
   (\<exists>s'. take_block cfg0 4316 40 heap_adj = Some (4332, s') \<and>
        free_list s' [4096, 4200, 5000] \<and> size_f s' 4316 = 50) \<and>
   find_best_fit 40 heap_adj = Some 4316 \<and>
   my_malloc cfg0 40 heap_adj = take_block cfg0 4316 40 (heap_adj\<lparr>my_malloc_errno := NO_ERROR\<rparr>)"
proof -
  have fl: "free_list heap_adj [4096, 4200, 4316, 5000]"
    by (simp add: free_list_def heap_adj_def)
  have ih: "in_heap cfg0 heap_adj 4200" "in_heap cfg0 heap_adj 4316"
    by (simp_all add: in_heap_def heap_adj_def cfg0_def)
  have sz: "(20 :: size_t) < size_f heap_adj 4200" "20 + TOTAL_METADATA_SIZE cfg0 + 1 \<le> size_f heap_adj 4200"
    "(40 :: size_t) < size_f heap_adj 4316" "\<not> 40 + TOTAL_METADATA_SIZE cfg0 + 1 \<le> size_f heap_adj 4316"
    "size_f heap_adj 4200 = 100" "size_f heap_adj 4316 = 50"
    by (simp_all add: heap_adj_def cfg0_def)
  have fb: "find_best_fit 40 heap_adj = Some 4316"
    by code_simp
  have c: "(40 :: size_t) \<noteq> 0 \<and> 40 \<le> SBRK_SIZE cfg0 - TOTAL_METADATA_SIZE cfg0"
    by (simp add: cfg0_def)
  from C5_split_or_unsplit [OF fl _ ih(1) sz(1), of ] sz
  have a: "\<exists>s'. take_block cfg0 4200 20 heap_adj = Some (4296, s') \<and>
        free_list s' [4096, 4200, 4316, 5000] \<and> size_f s' 4280 = 20 \<and> size_f s' 4200 = 64"
    by (auto simp: cfg0_def)
  from C5_split_or_unsplit [OF fl _ ih(2) sz(3)] sz fb c
  have b: "(\<exists>s'. take_block cfg0 4316 40 heap_adj = Some (4332, s') \<and>
        free_list s' [4096, 4200, 5000] \<and> size_f s' 4316 = 50) \<and>
     my_malloc cfg0 40 heap_adj = take_block cfg0 4316 40 (heap_adj\<lparr>my_malloc_errno := NO_ERROR\<rparr>)"
    by (auto simp: cfg0_def)
  show ?thesis
    using fl ih sz(1-4) a b fb by blast
qed

section \<open>\<^verbatim>\<open>my_free\<close> and the order of the free list\<close>

text \<open>
  Once \<open>prev\<close> and \<open>cur\<close> are the same header, that header points to itself and is not
  adjacent to itself, the loop of \<^verbatim>\<open>mergeAll\<close> never ends.
\<close>

lemma mergeAll_loop_cycle:
  assumes "mergeAll_loop c prev cur i s = Some y"
  shows "\<not> (prev = cur \<and> cur \<noteq> NULL \<and> next_f s cur = cur \<and>
            cur + TOTAL_METADATA_SIZE c + size_f s cur \<noteq> cur)"
proof -
  let ?Q = "\<lambda>c prev cur (i :: bool) s (y :: bool \<times> state).
              \<not> (prev = cur \<and> cur \<noteq> NULL \<and> next_f s cur = cur \<and>
                 cur + TOTAL_METADATA_SIZE c + size_f s cur \<noteq> cur)"
  have step: "?Q c prev cur i s y"
    if IH: "\<And>c prev cur i s y. f c prev cur i s = Some y \<Longrightarrow> ?Q c prev cur i s y"
      and body: "(if cur \<noteq> NULL
                 then (if prev + TOTAL_METADATA_SIZE c + size_f s prev = cur
                       then f c cur (next_f (merge c prev cur s) cur) True (merge c prev cur s)
                       else f c cur (next_f s cur) i s)
                 else Some (i, s)) = Some y"
    for f c prev cur i s y
  proof
    assume a: "prev = cur \<and> cur \<noteq> NULL \<and> next_f s cur = cur \<and>
            cur + TOTAL_METADATA_SIZE c + size_f s cur \<noteq> cur"
    with body have "f c cur cur i s = Some y" by simp
    from IH [OF this] a show False by simp
  qed
  show ?thesis
    by (rule mergeAll_loop.raw_induct [where P = ?Q, OF step assms])
qed

lemma mergeAll_self_loop:
  assumes "address_list s \<noteq> NULL" and "next_f s (address_list s) = address_list s"
    and "address_list s + TOTAL_METADATA_SIZE c + size_f s (address_list s) \<noteq> address_list s"
  shows "mergeAll c s = None"
proof -
  have "mergeAll_loop c (address_list s) (address_list s) False s = None"
    using mergeAll_loop_cycle [of c "address_list s" "address_list s" False s] assms
    by (cases "mergeAll_loop c (address_list s) (address_list s) False s") auto
  with assms show ?thesis
    by (subst mergeAll.simps) simp
qed

text \<open>
  Claim C2, as stated, is about the release of any non-null pointer. Releasing a block that
  is already on the free list links the block to itself, and \<^verbatim>\<open>mergeAll\<close> does not return.
\<close>

theorem C2_double_free_counterexample:
  "free_list heap_one [4096] \<and> sorted_wrt (<) [4096 :: addr] \<and> (4112 :: addr) \<noteq> NULL \<and>
   4112 - TOTAL_METADATA_SIZE cfg0 = 4096 \<and> my_free cfg0 4112 heap_one = None"
proof -
  have "map_option (\<lambda>s1. (address_list s1, next_f s1 4096, size_f s1 4096))
          (add_to_addr_list 4096 (heap_one\<lparr>my_malloc_errno := NO_ERROR\<rparr>)) = Some (4096, 4096, 100)"
    by code_simp
  then obtain s1 where s1: "add_to_addr_list 4096 (heap_one\<lparr>my_malloc_errno := NO_ERROR\<rparr>) = Some s1"
    "address_list s1 = 4096" "next_f s1 4096 = 4096" "size_f s1 4096 = 100"
    by auto
  have "mergeAll cfg0 s1 = None"
    by (rule mergeAll_self_loop) (simp_all add: s1 cfg0_def)
  with s1(1) have "my_free cfg0 4112 heap_one = None"
    by (simp add: my_free_def cfg0_def)
  moreover have "free_list heap_one [4096]"
    by (simp add: free_list_def heap_one_def)
  ultimately show ?thesis by (simp add: cfg0_def)
qed

lemma set_ins: "set (ins b ps) = insert b (set ps)"
  by (induction ps) (auto simp: ins_def)

lemma ins_Cons: "ins b (a # ps) = (if a < b then a # ins b ps else b # a # ps)"
  by (simp add: ins_def)

lemma sorted_ins:
  "sorted_wrt (<) ps \<Longrightarrow> b \<notin> set ps \<Longrightarrow> sorted_wrt (<) (ins b ps)"
proof (induction ps)
  case Nil
  show ?case by (simp add: ins_def)
next
  case (Cons a ps)
  then have IH: "sorted_wrt (<) (ins b ps)" by simp
  show ?case
  proof (cases "a < b")
    case True
    with Cons.prems IH show ?thesis
      by (simp add: ins_Cons set_ins)
  next
    case False
    with Cons.prems have "b < a" by auto
    with False Cons.prems show ?thesis
      by (auto simp: ins_Cons)
  qed
qed

text \<open>
  Claim C2, amended. Let the free list be strictly ascending and not empty, and let the
  header of the released pointer be neither \<^verbatim>\<open>NULL\<close> nor on the list. Then \<^verbatim>\<open>add_to_addr_list\<close>
  links the header after the entries below it and before the first entry that is not below
  it (so at the head when the first entry is above it, at the tail when every entry is
  below it), the list is strictly ascending at that point, and \<^verbatim>\<open>my_free\<close> returns with a
  free list that is a subsequence of it, strictly ascending and without duplicates.
\<close>

theorem C2_my_free_sorted:
  assumes "free_list s ps" and "sorted_wrt (<) ps" and "ps \<noteq> []"
    and "ptr \<noteq> NULL" and "ptr - TOTAL_METADATA_SIZE c \<noteq> NULL"
    and "ptr - TOTAL_METADATA_SIZE c \<notin> set ps"
  shows "\<exists>s1 s' ps'.
           add_to_addr_list (ptr - TOTAL_METADATA_SIZE c) (s\<lparr>my_malloc_errno := NO_ERROR\<rparr>) = Some s1 \<and>
           free_list s1 (takeWhile (\<lambda>a. a < ptr - TOTAL_METADATA_SIZE c) ps
                           @ (ptr - TOTAL_METADATA_SIZE c)
                           # dropWhile (\<lambda>a. a < ptr - TOTAL_METADATA_SIZE c) ps) \<and>
           sorted_wrt (<) (takeWhile (\<lambda>a. a < ptr - TOTAL_METADATA_SIZE c) ps
                           @ (ptr - TOTAL_METADATA_SIZE c)
                           # dropWhile (\<lambda>a. a < ptr - TOTAL_METADATA_SIZE c) ps) \<and>
           my_free c ptr s = Some s' \<and> free_list s' ps' \<and> sorted_wrt (<) ps' \<and> distinct ps' \<and>
           subseq ps' (takeWhile (\<lambda>a. a < ptr - TOTAL_METADATA_SIZE c) ps
                           @ (ptr - TOTAL_METADATA_SIZE c)
                           # dropWhile (\<lambda>a. a < ptr - TOTAL_METADATA_SIZE c) ps)"
proof -
  let ?b = "ptr - TOTAL_METADATA_SIZE c"
  let ?s0 = "s\<lparr>my_malloc_errno := NO_ERROR\<rparr>"
  have fl0: "free_list ?s0 ps" using assms(1) by simp
  from add_to_addr_list_ins [OF fl0 assms(3,5,6)]
  obtain s1 where s1: "add_to_addr_list ?b ?s0 = Some s1" "free_list s1 (ins ?b ps)"
    by blast
  have so: "sorted_wrt (<) (ins ?b ps)"
    using assms(2,6) by (rule sorted_ins)
  let ?bs = "coalesce (TOTAL_METADATA_SIZE c) (blocks s1 (ins ?b ps))"
  from mergeAll_coalesce [OF s1(2), of c]
  obtain s' where s': "mergeAll c s1 = Some s'" "free_list s' (map fst ?bs)"
    by blast
  have sub: "subseq (map fst ?bs) (ins ?b ps)"
    using coalesce_subseq [of "TOTAL_METADATA_SIZE c" "blocks s1 (ins ?b ps)"]
    by (simp add: blocks_fst)
  then have so': "sorted_wrt (<) (map fst ?bs)"
    using so by (rule subseq_sorted_wrt)
  have di: "distinct (map fst ?bs)"
    using s'(2) unfolding free_list_def by (rule seg_null_distinct)
  have mf: "my_free c ptr s = Some s'"
    using assms(4) s1(1) s'(1) by (simp add: my_free_def)
  show ?thesis
    using s1 so mf s'(2) so' di sub unfolding ins_def by blast
qed

theorem C2_my_free_sorted_witness:
  "free_list heap_adj [4096, 4200, 4316, 5000] \<and> sorted_wrt (<) [4096, 4200, 4316, 5000 :: addr] \<and>
   [4096, 4200, 4316, 5000 :: addr] \<noteq> [] \<and> (4616 :: addr) \<noteq> NULL \<and>
   4616 - TOTAL_METADATA_SIZE cfg0 \<noteq> NULL \<and>
   4616 - TOTAL_METADATA_SIZE cfg0 \<notin> set [4096, 4200, 4316, 5000] \<and>
   (\<exists>s1 s' ps'.
      add_to_addr_list 4600 (heap_adj\<lparr>my_malloc_errno := NO_ERROR\<rparr>) = Some s1 \<and>
      free_list s1 [4096, 4200, 4316, 4600, 5000] \<and>
      my_free cfg0 4616 heap_adj = Some s' \<and> free_list s' ps' \<and> sorted_wrt (<) ps' \<and>
      subseq ps' [4096, 4200, 4316, 4600, 5000])"
proof -
  have fl: "free_list heap_adj [4096, 4200, 4316, 5000]"
    by (simp add: free_list_def heap_adj_def)
  have so: "sorted_wrt (<) [4096, 4200, 4316, 5000 :: addr]" and ne: "[4096, 4200, 4316, 5000 :: addr] \<noteq> []"
    by simp_all
  have p: "(4616 :: addr) \<noteq> NULL" "4616 - TOTAL_METADATA_SIZE cfg0 \<noteq> NULL"
    "4616 - TOTAL_METADATA_SIZE cfg0 \<notin> set [4096, 4200, 4316, 5000]"
    by (simp_all add: cfg0_def)
  from C2_my_free_sorted [OF fl so ne p]
  have "\<exists>s1 s' ps'.
      add_to_addr_list 4600 (heap_adj\<lparr>my_malloc_errno := NO_ERROR\<rparr>) = Some s1 \<and>
      free_list s1 [4096, 4200, 4316, 4600, 5000] \<and>
      my_free cfg0 4616 heap_adj = Some s' \<and> free_list s' ps' \<and> sorted_wrt (<) ps' \<and>
      subseq ps' [4096, 4200, 4316, 4600, 5000]"
    by (simp add: cfg0_def) blast
  then show ?thesis
    using fl so p by simp
qed

section \<open>\<^verbatim>\<open>my_malloc\<close> on a valid heap\<close>

lemma add_to_addr_list_total:
  assumes fl: "free_list s ps" and bn: "block \<noteq> NULL" and bps: "block \<notin> set ps"
    and e: "ps = [] \<longrightarrow> next_f s block = NULL"
  shows "\<exists>s'. add_to_addr_list block s = Some s' \<and> free_list s' (ins block ps) \<and>
              relinked (insert block (set ps)) s s'"
proof (cases "ps = []")
  case True
  with fl have "address_list s = NULL" by (simp add: free_list_def)
  then have "add_to_addr_list block s = Some (s\<lparr>address_list := block\<rparr>)"
    by (simp add: add_to_addr_list_def)
  moreover have "free_list (s\<lparr>address_list := block\<rparr>) (ins block ps)"
    using True e bn by (simp add: free_list_def ins_def)
  moreover have "relinked (insert block (set ps)) s (s\<lparr>address_list := block\<rparr>)"
    by (simp add: relinked_def)
  ultimately show ?thesis by blast
next
  case False
  show ?thesis by (rule add_to_addr_list_ins [OF fl False bn bps])
qed

lemma fits_pass:
  "fits m lim (b # bs) \<Longrightarrow> fits m lim (pass m b bs)"
proof (induction m b bs rule: pass.induct)
  case (1 m a z)
  then show ?case by simp
next
  case (2 m a z b y)
  show ?case
  proof (cases "a + m + z = b")
    case True
    from 2 have "unat a + unat m + unat z \<le> unat lim" "unat (a + m + z) + unat m + unat y \<le> unat lim"
      by (simp_all add: fits_def True)
    then have "unat a + unat m + unat (z + y + m) \<le> unat lim"
      by unat_arith
    with True show ?thesis by (simp add: fits_def)
  next
    case False
    with 2 show ?thesis by simp
  qed
next
  case (3 m a z b y r rs)
  show ?case
  proof (cases "a + m + z = b")
    case True
    from 3(3) have "unat a + unat m + unat z \<le> unat lim" "unat (a + m + z) + unat m + unat y \<le> unat lim"
      by (simp_all add: fits_def True)
    then have "unat a + unat m + unat (z + y + m) \<le> unat lim"
      by unat_arith
    moreover have "fits m lim (pass m r rs)"
      using 3(1) [OF True] 3(3) by (simp add: fits_def)
    ultimately show ?thesis using True by (simp add: fits_def)
  next
    case False
    have "fits m lim (pass m (b, y) (r # rs))"
      using 3(2) [OF False] 3(3) by (simp add: fits_def)
    with False 3(3) show ?thesis by (simp add: fits_def)
  qed
qed

lemma fits_coalesce: "fits m lim bs \<Longrightarrow> fits m lim (coalesce m bs)"
proof (induction m bs rule: coalesce.induct)
  case (1 m)
  then show ?case by simp
next
  case (2 m b bs)
  then have "fits m lim (pass m b bs)" by (simp add: fits_pass)
  with 2 show ?case by (simp del: pass.simps)
qed

lemma valid_heap_fits:
  "valid_heap c s ps \<longleftrightarrow> free_list s ps \<and> fits (TOTAL_METADATA_SIZE c) (brk s) (blocks s ps)"
  by (simp add: valid_heap_def fits_def blocks_def in_heap_def list_all_iff)

lemma take_block_total:
  assumes "free_list s ps" and "t \<in> set ps" and "in_heap c s t" and "sz \<le> size_f s t"
  shows "\<exists>p s'. take_block c t sz s = Some (p, s') \<and> p \<noteq> NULL \<and>
                my_malloc_errno s' = NO_ERROR \<and> sz \<le> size_f s' (p - TOTAL_METADATA_SIZE c) \<and>
                bytes s' = bytes s \<and> brk s' = brk s \<and> heap_end s' = heap_end s"
proof -
  let ?m = "TOTAL_METADATA_SIZE c"
  from assms(1) have "NULL \<notin> set ps"
    unfolding free_list_def by (rule seg_not_null)
  with assms(2) have tn: "t \<noteq> NULL" by auto
  show ?thesis
  proof (cases "sz < size_f s t \<and> sz + ?m + 1 \<le> size_f s t")
    case True
    let ?ret = "t + ?m + size_f s t - (sz + ?m)"
    have "?ret + ?m \<noteq> NULL"
      using tail_not_null(2) [of t ?m "size_f s t" "brk s" sz] assms(3) tn True
      by (simp add: in_heap_def)
    with take_block_split [OF tn assms(3), of sz] True show ?thesis
      by simp
  next
    case False
    with assms(4) have "size_f s t = sz \<or> (sz < size_f s t \<and> \<not> sz + ?m + 1 \<le> size_f s t)"
      by auto
    from take_block_unsplit [OF assms(1) this]
    obtain s' where s': "take_block c t sz s = Some (t + ?m, s')"
      "relinked (set ps) (s\<lparr>my_malloc_errno := NO_ERROR\<rparr>) s'"
      by blast
    have "t + ?m \<noteq> NULL"
      using payload_not_null [of t ?m "size_f s t" "brk s"] assms(3) tn
      by (simp add: in_heap_def)
    with s' assms(4) show ?thesis
      by (simp add: relinked_def)
  qed
qed

lemma unat_pos:
  fixes m :: "64 word"
  shows "0 < m \<Longrightarrow> 0 < unat m"
  by unat_arith

lemma unat_add_below:
  fixes b k h :: "64 word"
  assumes "unat b + unat k \<le> unat h"
  shows "unat (b + k) = unat b + unat k"
  using assms by unat_arith

lemma unat_sub_le:
  fixes k m :: "64 word"
  assumes "m \<le> k"
  shows "unat (k - m) = unat k - unat m" and "unat m \<le> unat k"
  using assms by unat_arith+

lemma not_sentinel:
  fixes b k h :: "64 word"
  assumes "unat b + unat k \<le> unat h" and "0 < k"
  shows "b \<noteq> - 1"
proof
  assume "b = - 1"
  then have "unat b = 2 ^ 64 - 1"
    by (simp add: unsigned_minus_1_eq_mask mask_eq_exp_minus_1)
  moreover have "unat h < 2 ^ 64"
    using unsigned_less [of h, where 'a = nat] by simp
  moreover have "0 < unat k"
    using assms(2) by (simp add: unat_gt_0)
  ultimately show False
    using assms(1) by simp
qed

lemma valid_heap_in_heap: "valid_heap c s ps \<Longrightarrow> a \<in> set ps \<Longrightarrow> in_heap c s a"
  by (simp add: valid_heap_def list_all_iff)

lemma my_malloc_extend:
  assumes cfg: "0 < TOTAL_METADATA_SIZE c" "TOTAL_METADATA_SIZE c \<le> SBRK_SIZE c"
    and vh: "valid_heap c s ps" and bn: "brk s \<noteq> NULL"
    and sz: "sz \<noteq> 0" "sz \<le> SBRK_SIZE c - TOTAL_METADATA_SIZE c"
    and nf: "find_best_fit sz s = Some NULL"
    and ok: "unat (brk s) + unat (SBRK_SIZE c) \<le> unat (heap_end s)"
  shows "\<exists>p s' ps'. my_malloc c sz s = Some (p, s') \<and> brk s' = brk s + SBRK_SIZE c \<and>
           bytes s' = bytes s \<and>
           (p = NULL \<longrightarrow> my_malloc_errno s' = OUT_OF_MEMORY \<and> free_list s' ps' \<and>
              set ps' \<subseteq> insert (brk s) (set ps) \<and>
              (\<forall>a. a \<notin> insert (brk s) (set ps) \<longrightarrow>
                   size_f s' a = size_f s a \<and> next_f s' a = next_f s a)) \<and>
           (p \<noteq> NULL \<longrightarrow> my_malloc_errno s' = NO_ERROR \<and>
              sz \<le> size_f s' (p - TOTAL_METADATA_SIZE c))"
proof -
  let ?m = "TOTAL_METADATA_SIZE c" and ?k = "SBRK_SIZE c" and ?b = "brk s"
  let ?s0 = "s\<lparr>my_malloc_errno := NO_ERROR\<rparr>"
  define s3 where "s3 = ?s0\<lparr>brk := ?b + ?k, size_f := (size_f s)(?b := ?k - ?m),
                            next_f := (next_f s)(?b := NULL)\<rparr>"
  from vh have fl: "free_list s ps" and ih: "\<And>a. a \<in> set ps \<Longrightarrow> in_heap c s a"
    by (simp_all add: valid_heap_def list_all_iff)
  have kp: "0 < ?k"
    using cfg by auto
  have bm1: "?b \<noteq> - 1"
    using ok kp by (rule not_sentinel)
  have ubk: "unat (?b + ?k) = unat ?b + unat ?k"
    using ok by (rule unat_add_below)
  have ukm: "unat (?k - ?m) = unat ?k - unat ?m" "unat ?m \<le> unat ?k" "0 < unat ?m"
    using cfg by (simp_all add: unat_sub_le unat_gt_0)
  have bps: "?b \<notin> set ps"
  proof
    assume "?b \<in> set ps"
    then have "in_heap c s ?b" by (rule ih)
    with ukm show False by (simp add: in_heap_def)
  qed
  have fl3: "free_list s3 ps"
    using fl bps by (simp add: s3_def free_list_def seg_upd)
  have "ps = [] \<longrightarrow> next_f s3 ?b = NULL"
    by (simp add: s3_def)
  from add_to_addr_list_total [OF fl3 bn bps this]
  obtain s4 where s4: "add_to_addr_list ?b s3 = Some s4" "free_list s4 (ins ?b ps)"
    "relinked (insert ?b (set ps)) s3 s4"
    by blast
  have s4f: "size_f s4 = size_f s3" "brk s4 = brk s3" "bytes s4 = bytes s3"
    "my_malloc_errno s4 = my_malloc_errno s3" "heap_end s4 = heap_end s3"
    using s4(3) by (simp_all add: relinked_def)
  have ih4: "in_heap c s4 a" if "a \<in> set (ins ?b ps)" for a
  proof (cases "a = ?b")
    case True
    then show ?thesis
      using ubk ukm by (simp add: in_heap_def s4f s3_def)
  next
    case False
    with that have "a \<in> set ps" by (simp add: set_ins)
    then have "in_heap c s a" by (rule ih)
    with False ubk show ?thesis
      by (simp add: in_heap_def s4f s3_def)
  qed
  with s4(2) have vh4: "valid_heap c s4 (ins ?b ps)"
    by (simp add: valid_heap_def list_all_iff)
  let ?R = "coalesce ?m (blocks s4 (ins ?b ps))"
  from mergeAll_coalesce [OF s4(2), of c]
  obtain s5 where s5: "mergeAll c s4 = Some s5" "free_list s5 (map fst ?R)"
    "blocks s5 (map fst ?R) = ?R" "frame (set (ins ?b ps)) s4 s5"
    by blast
  have s5f: "brk s5 = brk s4" "bytes s5 = bytes s4" "my_malloc_errno s5 = my_malloc_errno s4"
    using s5(4) by (simp_all add: frame_def)
  have "fits ?m (brk s4) ?R"
    using vh4 by (simp add: valid_heap_fits fits_coalesce)
  with s5 s5f have vh5: "valid_heap c s5 (map fst ?R)"
    by (simp add: valid_heap_fits)
  have sub: "set (map fst ?R) \<subseteq> insert ?b (set ps)"
    using subseq_set [OF coalesce_subseq [of ?m "blocks s4 (ins ?b ps)"]]
    by (simp add: blocks_fst set_ins)
  have fr: "size_f s5 a = size_f s a \<and> next_f s5 a = next_f s a" if "a \<notin> insert ?b (set ps)" for a
  proof -
    from that have "a \<notin> set (ins ?b ps)" by (simp add: set_ins)
    with s5(4) have "size_f s5 a = size_f s4 a \<and> next_f s5 a = next_f s4 a"
      by (simp add: frame_def)
    moreover have "next_f s4 a = next_f s3 a"
      using s4(3) that by (simp add: relinked_def)
    ultimately show ?thesis
      using that by (simp add: s4f s3_def)
  qed
  obtain t where t: "find_best_fit sz s5 = Some t"
    using find_best_fit_list [OF s5(2)] by blast
  have nf0: "find_best_fit sz ?s0 = Some NULL"
    using nf find_best_fit_errno [OF fl] by simp
  have ng: "\<not> ?k - ?m < sz"
    using sz(2) by simp
  have sb: "my_sbrk ?k ?s0 = (?b, ?s0\<lparr>brk := ?b + ?k\<rparr>)"
    using ok by (simp add: my_sbrk_def)
  have mm: "my_malloc c sz s =
              (if t = NULL \<or> size_f s5 t < sz
               then Some (NULL, s5\<lparr>my_malloc_errno := OUT_OF_MEMORY\<rparr>)
               else take_block c t sz s5)"
    using sz(1) ng nf0 sb bm1 bn s4(1) s5(1) t
    by (simp add: my_malloc_def Let_def s3_def)
  show ?thesis
  proof (cases "t = NULL \<or> size_f s5 t < sz")
    case True
    with mm have "my_malloc c sz s = Some (NULL, s5\<lparr>my_malloc_errno := OUT_OF_MEMORY\<rparr>)"
      by simp
    moreover have "free_list (s5\<lparr>my_malloc_errno := OUT_OF_MEMORY\<rparr>) (map fst ?R)"
      using s5(2) by simp
    ultimately show ?thesis
      using sub fr
      by (intro exI [of _ NULL] exI [of _ "s5\<lparr>my_malloc_errno := OUT_OF_MEMORY\<rparr>"]
            exI [of _ "map fst ?R"])
        (simp add: s5f s4f s3_def)
  next
    case False
    then have tn: "t \<noteq> NULL" and le: "sz \<le> size_f s5 t" by auto
    from find_best_fit_valid [OF s5(2) t tn] have tin: "t \<in> set (map fst ?R)" by simp
    with vh5 have "in_heap c s5 t"
      by (rule valid_heap_in_heap)
    from take_block_total [OF s5(2) tin this le]
    obtain p s' where "take_block c t sz s5 = Some (p, s')" "p \<noteq> NULL"
      "my_malloc_errno s' = NO_ERROR" "sz \<le> size_f s' (p - ?m)"
      "bytes s' = bytes s5" "brk s' = brk s5"
      by blast
    with mm False show ?thesis
      by (auto simp: s5f s4f s3_def)
  qed
qed

lemma my_malloc_outcome:
  assumes cfg: "config_ok c" and vh: "valid_heap c s ps" and bn: "brk s \<noteq> NULL"
  shows "\<exists>p s'. my_malloc c sz s = Some (p, s') \<and> bytes s' = bytes s \<and>
           (p = NULL \<longrightarrow>
              (my_malloc_errno s' = SINGLE_REQUEST_TOO_LARGE \<or> my_malloc_errno s' = OUT_OF_MEMORY \<or>
               (sz = 0 \<and> my_malloc_errno s' = NO_ERROR)) \<and>
              (\<exists>ps'. free_list s' ps' \<and> set ps' \<subseteq> insert (brk s) (set ps)) \<and>
              (\<forall>a. a \<notin> insert (brk s) (set ps) \<longrightarrow>
                   size_f s' a = size_f s a \<and> next_f s' a = next_f s a)) \<and>
           (p \<noteq> NULL \<longrightarrow> my_malloc_errno s' = NO_ERROR \<and>
              sz \<le> size_f s' (p - TOTAL_METADATA_SIZE c))"
proof -
  let ?m = "TOTAL_METADATA_SIZE c" and ?k = "SBRK_SIZE c"
  let ?s0 = "s\<lparr>my_malloc_errno := NO_ERROR\<rparr>"
  from vh have fl: "free_list s ps" and ih: "\<And>a. a \<in> set ps \<Longrightarrow> in_heap c s a"
    by (simp_all add: valid_heap_def list_all_iff)
  from cfg have c1: "0 < ?m" "?m \<le> ?k" and c2: "?k - ?m \<le> 0xffffffff"
    by (simp_all add: config_ok_def)
  consider (large) "?k - ?m < sz" | (zero) "sz = 0" "sz \<le> ?k - ?m"
    | (go) "sz \<noteq> 0" "sz \<le> ?k - ?m"
    by (cases "?k - ?m < sz"; cases "sz = 0"; simp add: not_less)
  then show ?thesis
  proof cases
    case large
    then have "my_malloc c sz s = Some (NULL, s\<lparr>my_malloc_errno := SINGLE_REQUEST_TOO_LARGE\<rparr>)"
      by (simp add: my_malloc_def)
    moreover have "free_list (s\<lparr>my_malloc_errno := SINGLE_REQUEST_TOO_LARGE\<rparr>) ps"
      using fl by simp
    ultimately show ?thesis by auto
  next
    case zero
    then have "my_malloc c sz s = Some (NULL, s\<lparr>my_malloc_errno := NO_ERROR\<rparr>)"
      by (simp add: my_malloc_def)
    moreover have "free_list ?s0 ps"
      using fl by simp
    ultimately show ?thesis using zero by auto
  next
    case go
    obtain t where t: "find_best_fit sz s = Some t"
      using find_best_fit_list [OF fl] by blast
    show ?thesis
    proof (cases "t = NULL")
      case False
      from find_best_fit_valid [OF fl t False]
      have tin: "t \<in> set ps" and "size_f s t = sz \<or> sz < size_f s t \<or> size_f s t = 0xffffffff"
        by simp_all
      with go(2) c2 have le: "sz \<le> size_f ?s0 t" by auto
      have fl0: "free_list ?s0 ps" using fl by simp
      have "in_heap c ?s0 t" using ih [OF tin] by simp
      from take_block_total [OF fl0 tin this le]
      obtain p s' where "take_block c t sz ?s0 = Some (p, s')" "p \<noteq> NULL"
        "my_malloc_errno s' = NO_ERROR" "sz \<le> size_f s' (p - ?m)" "bytes s' = bytes ?s0"
        by blast
      with my_malloc_direct [OF fl go t False] show ?thesis
        by auto
    next
      case True
      show ?thesis
      proof (cases "unat (brk s) + unat ?k \<le> unat (heap_end s)")
        case ok: True
        from my_malloc_extend [OF c1 vh bn go t [unfolded True] ok]
        show ?thesis by blast
      next
        case no: False
        have nf0: "find_best_fit sz ?s0 = Some NULL"
          using t True find_best_fit_errno [OF fl] by simp
        have ng: "\<not> ?k - ?m < sz"
          using go(2) by simp
        have "my_malloc c sz s = Some (NULL, s\<lparr>my_malloc_errno := OUT_OF_MEMORY\<rparr>)"
          using go(1) ng nf0 no by (simp add: my_malloc_def Let_def my_sbrk_def)
        moreover have "free_list (s\<lparr>my_malloc_errno := OUT_OF_MEMORY\<rparr>) ps"
          using fl by simp
        ultimately show ?thesis by auto
      qed
    qed
  qed
qed

section \<open>Return value and error state of \<^verbatim>\<open>my_malloc\<close>\<close>

text \<open>
  Claim C10. On a valid heap \<^verbatim>\<open>my_malloc\<close> returns. When it returns a non-null pointer, the
  error state is \<open>NO_ERROR\<close> and the size field of the returned block is at least the request.
  When it returns \<^verbatim>\<open>NULL\<close>, either the request was 0 and the error state is \<open>NO_ERROR\<close>, or the
  error state is \<open>SINGLE_REQUEST_TOO_LARGE\<close> or \<open>OUT_OF_MEMORY\<close>: the last \<^verbatim>\<open>return (NULL)\<close>
  of the function is not reached with a non-zero request.
\<close>

theorem C10_malloc_error_state:
  assumes "config_ok c" and "valid_heap c s ps" and "brk s \<noteq> NULL"
  shows "\<exists>p s'. my_malloc c sz s = Some (p, s') \<and>
           (p \<noteq> NULL \<longrightarrow> my_malloc_errno s' = NO_ERROR \<and>
              sz \<le> size_f s' (p - TOTAL_METADATA_SIZE c)) \<and>
           (p = NULL \<longrightarrow> (sz = 0 \<and> my_malloc_errno s' = NO_ERROR) \<or>
              my_malloc_errno s' = SINGLE_REQUEST_TOO_LARGE \<or>
              my_malloc_errno s' = OUT_OF_MEMORY)"
proof -
  from my_malloc_outcome [OF assms, of sz]
  obtain p s' where "my_malloc c sz s = Some (p, s')"
    "p = NULL \<longrightarrow>
       (my_malloc_errno s' = SINGLE_REQUEST_TOO_LARGE \<or> my_malloc_errno s' = OUT_OF_MEMORY \<or>
        (sz = 0 \<and> my_malloc_errno s' = NO_ERROR))"
    "p \<noteq> NULL \<longrightarrow> my_malloc_errno s' = NO_ERROR \<and> sz \<le> size_f s' (p - TOTAL_METADATA_SIZE c)"
    by blast
  then show ?thesis by blast
qed

theorem C10_malloc_error_state_witness:
  "config_ok cfg0 \<and> valid_heap cfg0 heap_adj [4096, 4200, 4316, 5000] \<and> brk heap_adj \<noteq> NULL \<and>
   (\<exists>s'. my_malloc cfg0 500 heap_adj = Some (7692, s') \<and> my_malloc_errno s' = NO_ERROR \<and>
      500 \<le> size_f s' (7692 - TOTAL_METADATA_SIZE cfg0)) \<and>
   (\<exists>s'. my_malloc cfg0 3000 heap_adj = Some (NULL, s') \<and>
      my_malloc_errno s' = SINGLE_REQUEST_TOO_LARGE)"
proof -
  have c: "config_ok cfg0"
    by (simp add: config_ok_def cfg0_def)
  have v: "valid_heap cfg0 heap_adj [4096, 4200, 4316, 5000]"
    by (simp add: valid_heap_def free_list_def in_heap_def heap_adj_def cfg0_def)
  have b: "brk heap_adj \<noteq> NULL"
    by (simp add: heap_adj_def)
  have e1: "map_option fst (my_malloc cfg0 500 heap_adj) = Some 7692"
    by code_simp
  have e2: "map_option (\<lambda>(p, s'). (p, my_malloc_errno s')) (my_malloc cfg0 3000 heap_adj)
              = Some (NULL, SINGLE_REQUEST_TOO_LARGE)"
    by code_simp
  from C10_malloc_error_state [OF c v b, of 500] e1
  have "\<exists>s'. my_malloc cfg0 500 heap_adj = Some (7692, s') \<and> my_malloc_errno s' = NO_ERROR \<and>
      500 \<le> size_f s' (7692 - TOTAL_METADATA_SIZE cfg0)"
    by auto
  moreover from C10_malloc_error_state [OF c v b, of 3000] e2
  have "\<exists>s'. my_malloc cfg0 3000 heap_adj = Some (NULL, s') \<and>
      my_malloc_errno s' = SINGLE_REQUEST_TOO_LARGE"
    by auto
  ultimately show ?thesis using c v b by blast
qed

section \<open>\<^verbatim>\<open>my_realloc\<close> when the allocation fails\<close>

text \<open>
  Claim C6. Let \<open>ptr\<close> be a non-null pointer whose header lies inside the heap and is not on
  the free list, and let the requested size be positive. If the \<^verbatim>\<open>my_malloc\<close> call inside
  \<^verbatim>\<open>my_realloc\<close> returns \<^verbatim>\<open>NULL\<close>, then \<^verbatim>\<open>my_realloc\<close> returns \<^verbatim>\<open>NULL\<close> in the state that call
  left; the two header fields of the block and all payload bytes are unchanged, and the
  block is still not on the free list.
\<close>

theorem C6_realloc_failure:
  assumes "config_ok c" and "valid_heap c s ps" and "brk s \<noteq> NULL"
    and "ptr \<noteq> NULL" and "sz \<noteq> 0"
    and "ptr - TOTAL_METADATA_SIZE c \<notin> set ps" and "in_heap c s (ptr - TOTAL_METADATA_SIZE c)"
    and "my_malloc c sz s = Some (NULL, s1)"
  shows "my_realloc c ptr sz s = Some (NULL, s1) \<and>
         size_f s1 (ptr - TOTAL_METADATA_SIZE c) = size_f s (ptr - TOTAL_METADATA_SIZE c) \<and>
         next_f s1 (ptr - TOTAL_METADATA_SIZE c) = next_f s (ptr - TOTAL_METADATA_SIZE c) \<and>
         bytes s1 = bytes s \<and>
         (\<exists>ps'. free_list s1 ps' \<and> ptr - TOTAL_METADATA_SIZE c \<notin> set ps')"
proof -
  let ?h = "ptr - TOTAL_METADATA_SIZE c"
  from assms(1) have "0 < TOTAL_METADATA_SIZE c"
    by (simp add: config_ok_def)
  then have "0 < unat (TOTAL_METADATA_SIZE c)"
    by (rule unat_pos)
  with assms(7) have hb: "?h \<noteq> brk s"
    by (auto simp: in_heap_def)
  with assms(6) have out: "?h \<notin> insert (brk s) (set ps)" by simp
  from my_malloc_outcome [OF assms(1-3), of sz] assms(8)
  obtain ps' where "bytes s1 = bytes s" "free_list s1 ps'" "set ps' \<subseteq> insert (brk s) (set ps)"
    "\<forall>a. a \<notin> insert (brk s) (set ps) \<longrightarrow> size_f s1 a = size_f s a \<and> next_f s1 a = next_f s a"
    by auto
  moreover have "my_realloc c ptr sz s = Some (NULL, s1)"
    using assms(4,5,8) by (simp add: my_realloc_def my_malloc_errno_irrelevant)
  ultimately show ?thesis using out by blast
qed

theorem C6_realloc_failure_witness:
  "config_ok cfg0 \<and> valid_heap cfg0 heap_adj [4096, 4200, 4316, 5000] \<and> brk heap_adj \<noteq> NULL \<and>
   (4416 :: addr) \<noteq> NULL \<and> (3000 :: size_t) \<noteq> 0 \<and>
   4416 - TOTAL_METADATA_SIZE cfg0 \<notin> set [4096, 4200, 4316, 5000] \<and>
   in_heap cfg0 heap_adj (4416 - TOTAL_METADATA_SIZE cfg0) \<and>
   my_malloc cfg0 3000 heap_adj = Some (NULL, heap_adj\<lparr>my_malloc_errno := SINGLE_REQUEST_TOO_LARGE\<rparr>) \<and>
   my_realloc cfg0 4416 3000 heap_adj = Some (NULL, heap_adj\<lparr>my_malloc_errno := SINGLE_REQUEST_TOO_LARGE\<rparr>)"
proof -
  have c: "config_ok cfg0"
    by (simp add: config_ok_def cfg0_def)
  have v: "valid_heap cfg0 heap_adj [4096, 4200, 4316, 5000]"
    by (simp add: valid_heap_def free_list_def in_heap_def heap_adj_def cfg0_def)
  have b: "brk heap_adj \<noteq> NULL"
    by (simp add: heap_adj_def)
  have p: "(4416 :: addr) \<noteq> NULL" "(3000 :: size_t) \<noteq> 0"
    "4416 - TOTAL_METADATA_SIZE cfg0 \<notin> set [4096, 4200, 4316, 5000]"
    "in_heap cfg0 heap_adj (4416 - TOTAL_METADATA_SIZE cfg0)"
    by (simp_all add: cfg0_def in_heap_def heap_adj_def)
  have m: "my_malloc cfg0 3000 heap_adj = Some (NULL, heap_adj\<lparr>my_malloc_errno := SINGLE_REQUEST_TOO_LARGE\<rparr>)"
    by (simp add: my_malloc_def cfg0_def)
  from C6_realloc_failure [OF c v b p m]
  show ?thesis using c v b p m by simp
qed

section \<open>Allocating and releasing at once\<close>

lemma separated_tl: "separated m (b # bs) \<Longrightarrow> separated m bs"
  by (induction m "b # bs" arbitrary: b bs rule: separated.induct) auto

lemma separated_suffix: "separated m (xs @ ys) \<Longrightarrow> separated m ys"
  by (induction xs) (auto dest: separated_tl)

lemma no_adjacent_tl: "no_adjacent m (b # bs) \<Longrightarrow> no_adjacent m bs"
  by (induction m "b # bs" arbitrary: b bs rule: no_adjacent.induct) auto

lemma not_adjacent_word:
  fixes a m z b :: "64 word"
  assumes "unat a + unat m + unat z < unat b"
  shows "a + m + z \<noteq> b" and "a < b"
  using assms by unat_arith+

lemma separated_no_adjacent: "separated m bs \<Longrightarrow> no_adjacent m bs"
  by (induction m bs rule: separated.induct) (auto dest: not_adjacent_word(1))

lemma separated_sorted: "separated m bs \<Longrightarrow> sorted_wrt (<) (map fst bs)"
proof (induction m bs rule: separated.induct)
  case (3 m a z b y rest)
  then have "a < b" and "sorted_wrt (<) (b # map fst rest)"
    by (auto dest: not_adjacent_word(2))
  then show ?case
    by (auto intro: order.strict_trans)
qed simp_all

lemma ins_remove1:
  "sorted_wrt (<) ps \<Longrightarrow> t \<in> set ps \<Longrightarrow> ins t (remove1 t ps) = ps"
proof (induction ps)
  case Nil
  then show ?case by simp
next
  case (Cons a ps)
  show ?case
  proof (cases "a = t")
    case True
    with Cons.prems have "\<forall>x\<in>set ps. \<not> x < t" by auto
    then have "takeWhile (\<lambda>x. x < t) ps = []" "dropWhile (\<lambda>x. x < t) ps = ps"
      by (cases ps; simp)+
    with True show ?thesis by (simp add: ins_def)
  next
    case False
    with Cons.prems have "t \<in> set ps" "a < t" by auto
    with Cons False show ?thesis by (simp add: ins_Cons)
  qed
qed

lemma pass_rejoin:
  assumes "no_adjacent m (pre @ (t, z' + sz + m) # post)"
    and "b # bs = pre @ (t, z') # (t + m + z', sz) # post"
  shows "pass m b bs = pre @ (t, z' + sz + m) # post"
  using assms
proof (induction pre arbitrary: b bs)
  case Nil
  then have b: "b = (t, z')" "bs = (t + m + z', sz) # post" by simp_all
  show ?case
  proof (cases post)
    case Nil
    with b show ?thesis by simp
  next
    case (Cons r rs)
    from Nil.prems(1) have "no_adjacent m post" by (auto dest: no_adjacent_tl)
    with Cons have "pass m r rs = r # rs" by (simp add: no_adjacent_pass_id)
    with b Cons show ?thesis by simp
  qed
next
  case (Cons a pre)
  obtain aa az where a: "a = (aa, az)" by (cases a)
  from Cons.prems(2) have b: "b = a" "bs = pre @ (t, z') # (t + m + z', sz) # post" by simp_all
  obtain x y zs where bs: "bs = x # y # zs" and hx: "fst x = fst (hd (pre @ (t, z' + sz + m) # post))"
    using b(2) by (cases pre; cases "tl pre"; auto)
  obtain xa xz where x: "x = (xa, xz)" by (cases x)
  from Cons.prems(1) have na: "aa + m + az \<noteq> xa"
    and nt: "no_adjacent m (pre @ (t, z' + sz + m) # post)"
    using a hx x by (cases pre; auto)+
  have "pass m x (y # zs) = pre @ (t, z' + sz + m) # post"
    using Cons.IH [OF nt] b(2) bs by simp
  with na show ?case
    by (simp add: b(1) a bs x)
qed

lemma coalesce_rejoin:
  assumes "no_adjacent m (pre @ (t, z' + sz + m) # post)"
  shows "coalesce m (pre @ (t, z') # (t + m + z', sz) # post) = pre @ (t, z' + sz + m) # post"
proof -
  obtain b bs where bbs: "b # bs = pre @ (t, z') # (t + m + z', sz) # post"
    by (cases pre) auto
  from pass_rejoin [OF assms this] have p: "pass m b bs = pre @ (t, z' + sz + m) # post" .
  have "length bs = Suc (length pre + length post)"
    using arg_cong [OF bbs, of length] by simp
  then have "length (pass m b bs) < Suc (length bs)"
    by (simp add: p)
  then have "coalesce m (b # bs) = coalesce m (pass m b bs)"
    by (simp del: pass.simps)
  also have "\<dots> = pre @ (t, z' + sz + m) # post"
    unfolding p using assms by (rule coalesce_id)
  finally show ?thesis by (simp add: bbs)
qed

lemma valid_heap_errno [simp]:
  "valid_heap c (s\<lparr>my_malloc_errno := e\<rparr>) ps = valid_heap c s ps"
  by (simp add: valid_heap_def list_all_iff)

lemma free_bytes_blocks:
  "blocks s' ps = blocks s ps \<Longrightarrow> free_bytes s' ps = free_bytes s ps"
proof -
  assume "blocks s' ps = blocks s ps"
  then have "\<forall>a\<in>set ps. size_f s' a = size_f s a"
    by (simp add: blocks_def)
  then have "map (\<lambda>a. unat (size_f s' a)) ps = map (\<lambda>a. unat (size_f s a)) ps"
    by simp
  then show ?thesis
    unfolding free_bytes_def by (rule arg_cong [where f = sum_list])
qed

lemma ins_between:
  "\<forall>x\<in>set xs. x < b \<Longrightarrow> \<forall>y\<in>set (take 1 ys). \<not> y < b \<Longrightarrow> ins b (xs @ ys) = xs @ b # ys"
proof (induction xs)
  case Nil
  then show ?case by (cases ys) (simp_all add: ins_def)
next
  case (Cons a xs)
  then show ?case by (simp add: ins_Cons)
qed

lemma roundtrip_unsplit:
  assumes fl: "free_list s ps" and so: "sorted_wrt (<) ps"
    and na: "no_adjacent (TOTAL_METADATA_SIZE c) (blocks s ps)"
    and tin: "t \<in> set ps" and pn: "t + TOTAL_METADATA_SIZE c \<noteq> NULL"
    and f1: "free_list s1 (remove1 t ps)"
    and r1: "relinked (set ps) (s\<lparr>my_malloc_errno := NO_ERROR\<rparr>) s1"
    and n1: "next_f s1 t = next_f s t"
  shows "\<exists>s2. my_free c (t + TOTAL_METADATA_SIZE c) s1 = Some s2 \<and> free_list s2 ps \<and>
              blocks s2 ps = blocks s ps"
proof -
  let ?m = "TOTAL_METADATA_SIZE c"
  let ?s1 = "s1\<lparr>my_malloc_errno := NO_ERROR\<rparr>"
  from fl have dist: "distinct ps" and nn: "NULL \<notin> set ps"
    unfolding free_list_def by (rule seg_null_distinct, rule seg_not_null)
  from nn tin have tn: "t \<noteq> NULL" by auto
  have f1': "free_list ?s1 (remove1 t ps)" using f1 by simp
  have tr: "t \<notin> set (remove1 t ps)" using dist by simp
  have e: "remove1 t ps = [] \<longrightarrow> next_f ?s1 t = NULL"
  proof
    assume "remove1 t ps = []"
    with tin have "ps = [t]"
      by (cases ps) (auto split: if_splits)
    with fl have "next_f s t = NULL" by (simp add: free_list_def)
    with n1 show "next_f ?s1 t = NULL" by simp
  qed
  from add_to_addr_list_total [OF f1' tn tr e]
  obtain s2 where s2: "add_to_addr_list t ?s1 = Some s2" "free_list s2 (ins t (remove1 t ps))"
    "relinked (insert t (set (remove1 t ps))) ?s1 s2"
    by blast
  have fl2: "free_list s2 ps"
    using s2(2) ins_remove1 [OF so tin] by simp
  have "size_f s2 = size_f s"
    using s2(3) r1 by (simp add: relinked_def)
  then have b2: "blocks s2 ps = blocks s ps"
    by (simp add: blocks_def)
  with na have "no_adjacent ?m (blocks s2 ps)" by simp
  with mergeAll_coalesce [OF fl2, of c] have "mergeAll c s2 = Some s2"
    by auto
  with s2(1) pn have "my_free c (t + ?m) s1 = Some s2"
    by (simp add: my_free_def)
  with fl2 b2 show ?thesis by blast
qed

lemma split_header_eq:
  fixes t m z sz :: "64 word"
  shows "t + m + z - (sz + m) = t + m + (z - (sz + m))" and "z - (sz + m) + sz + m = z"
  by simp_all

lemma roundtrip_split:
  assumes vh: "valid_heap c s ps"
    and sep: "separated (TOTAL_METADATA_SIZE c) (blocks s ps)"
    and tin: "t \<in> set ps" and lt: "sz < size_f s t"
  shows "\<exists>s2. my_free c
                 (t + TOTAL_METADATA_SIZE c + size_f s t - (sz + TOTAL_METADATA_SIZE c) + TOTAL_METADATA_SIZE c)
                 (s\<lparr>size_f := (size_f s)
                      (t := size_f s t - (sz + TOTAL_METADATA_SIZE c),
                       t + TOTAL_METADATA_SIZE c + size_f s t - (sz + TOTAL_METADATA_SIZE c) := sz),
                   my_malloc_errno := NO_ERROR\<rparr>) = Some s2 \<and>
              free_list s2 ps \<and> blocks s2 ps = blocks s ps"
proof -
  let ?m = "TOTAL_METADATA_SIZE c"
  define S where "S = size_f s t"
  define S' where "S' = S - (sz + ?m)"
  define ret where "ret = t + ?m + S - (sz + ?m)"
  define s1 where "s1 = s\<lparr>size_f := (size_f s)(t := S', ret := sz), my_malloc_errno := NO_ERROR\<rparr>"
  have ret': "ret = t + ?m + S'" and SS: "S' + sz + ?m = S"
    by (simp_all add: ret_def S'_def)
  from vh have fl: "free_list s ps" and ih: "in_heap c s t"
    using tin by (auto simp: valid_heap_def list_all_iff)
  from fl have dist: "distinct ps" and nn: "NULL \<notin> set ps"
    unfolding free_list_def by (rule seg_null_distinct, rule seg_not_null)
  from nn tin have tn: "t \<noteq> NULL" by auto
  have so: "sorted_wrt (<) ps"
    using separated_sorted [OF sep] by (simp add: blocks_fst)
  have bd: "unat t + unat ?m + unat S \<le> unat (brk s)"
    using ih by (simp add: in_heap_def S_def)
  have lt': "sz < S" using lt by (simp add: S_def)
  have rn: "ret \<noteq> NULL" and rpn: "ret + ?m \<noteq> NULL" and tr: "t < ret"
    and ur: "unat ret = unat t + unat S - unat sz"
    unfolding ret_def using tail_not_null [OF bd tn lt'] by simp_all
  from tin obtain pre post where ps: "ps = pre @ t # post"
    by (auto simp: in_set_conv_decomp)
  have pre_lt: "\<forall>x\<in>set pre. x < t" and post_gt: "\<forall>x\<in>set post. t < x"
    using so unfolding ps by (auto simp: sorted_wrt_append)
  have post_ret: "\<forall>x\<in>set post. ret < x"
  proof (cases post)
    case Nil
    then show ?thesis by simp
  next
    case (Cons y post')
    have "separated ?m (blocks s pre @ blocks s (t # y # post'))"
      using sep unfolding ps Cons by (simp add: blocks_def)
    then have "separated ?m (blocks s (t # y # post'))"
      by (rule separated_suffix)
    then have "unat t + unat ?m + unat S < unat y"
      by (simp add: blocks_def S_def)
    with ur have "unat ret < unat y" by simp
    then have ry: "ret < y" by (simp add: word_less_nat_alt)
    have "\<forall>x\<in>set post'. y < x"
      using so unfolding ps Cons by (auto simp: sorted_wrt_append)
    with ry Cons show ?thesis by auto
  qed
  have rps: "ret \<notin> set ps"
    unfolding ps using pre_lt post_ret tr by auto
  have insr: "ins ret ps = pre @ t # ret # post"
  proof -
    have a: "\<forall>x\<in>set (pre @ [t]). x < ret"
      using pre_lt tr by auto
    have b: "\<forall>y\<in>set (take 1 post). \<not> y < ret"
      using post_ret by (cases post) auto
    from ins_between [OF a b] show ?thesis by (simp add: ps)
  qed
  have fl1: "free_list s1 ps"
    using fl by (simp add: free_list_def s1_def)
  have ne: "ps \<noteq> []" using ps by simp
  from add_to_addr_list_ins [OF fl1 ne rn rps]
  obtain s2 where s2: "add_to_addr_list ret s1 = Some s2" "free_list s2 (ins ret ps)"
    "relinked (insert ret (set ps)) s1 s2"
    by blast
  have sz2: "size_f s2 = (size_f s)(t := S', ret := sz)"
    using s2(3) by (simp add: relinked_def s1_def)
  have tp: "t \<notin> set pre" "t \<notin> set post" "ret \<notin> set pre" "ret \<notin> set post" "t \<noteq> ret"
    using dist rps tr unfolding ps by auto
  have bl2: "blocks s2 (ins ret ps) = blocks s pre @ (t, S') # (t + ?m + S', sz) # blocks s post"
    unfolding insr using tp by (auto simp: blocks_def sz2 ret' [symmetric])
  have na: "no_adjacent ?m (blocks s pre @ (t, S' + sz + ?m) # blocks s post)"
    using separated_no_adjacent [OF sep] unfolding ps SS by (simp add: blocks_def S_def)
  have co: "coalesce ?m (blocks s2 (ins ret ps)) = blocks s ps"
    unfolding bl2 coalesce_rejoin [OF na] SS by (simp add: ps blocks_def S_def)
  from mergeAll_coalesce [OF s2(2), of c]
  obtain s3 where s3: "mergeAll c s2 = Some s3" "free_list s3 ps" "blocks s3 ps = blocks s ps"
    unfolding co by (auto simp: blocks_fst)
  have "my_free c (ret + ?m) s1 = Some s3"
    using rpn s2(1) s3(1) by (simp add: my_free_def s1_def)
  with s3 show ?thesis
    unfolding s1_def ret_def S'_def S_def by blast
qed

text \<open>
  Claim C7, as stated, is about every allocation. From the empty heap \<^verbatim>\<open>my_malloc(100)\<close> extends
  the heap by a chunk; after the release of the block the free list holds one block of 2032
  bytes, where it held no block before the two calls.
\<close>

theorem C7_extension_counterexample:
  "free_list heap0 [] \<and> free_bytes heap0 [] = 0 \<and>
   (\<exists>p s1 s2. my_malloc cfg0 100 heap0 = Some (p, s1) \<and> my_free cfg0 p s1 = Some s2 \<and>
      free_list s2 [4096] \<and> free_bytes s2 [4096] = 2032)"
proof -
  have "(do {
           (p, s1) \<leftarrow> my_malloc cfg0 100 heap0;
           s2 \<leftarrow> my_free cfg0 p s1;
           Some (free_list s2 [4096], free_bytes s2 [4096])
         }) = Some (True, 2032)"
    by code_simp
  then have "\<exists>p s1 s2. my_malloc cfg0 100 heap0 = Some (p, s1) \<and> my_free cfg0 p s1 = Some s2 \<and>
      free_list s2 [4096] \<and> free_bytes s2 [4096] = 2032"
    by (auto simp: bind_eq_Some_conv)
  moreover have "free_list heap0 [] \<and> free_bytes heap0 [] = 0"
    by (simp add: free_list_def heap0_def free_bytes_def)
  ultimately show ?thesis by blast
qed

lemma my_free_null: "my_free c NULL s = Some (s\<lparr>my_malloc_errno := NO_ERROR\<rparr>)"
  by (simp add: my_free_def)

text \<open>
  Claim C7, amended. On a valid heap whose free blocks neither overlap nor touch, let
  \<^verbatim>\<open>my_malloc\<close> return without having moved the heap boundary (it found a block, or it
  failed). Then the release of the returned pointer returns, the free list has the headers
  it had before the two calls, each with the size it had, and so the same number of blocks
  and the same total of free payload bytes.
\<close>

theorem C7_round_trip:
  assumes cfg: "config_ok c" and vh: "valid_heap c s ps"
    and sep: "separated (TOTAL_METADATA_SIZE c) (blocks s ps)"
    and mm: "my_malloc c sz s = Some (p, s1)" and nb: "brk s1 = brk s"
  shows "\<exists>s2. my_free c p s1 = Some s2 \<and> free_list s2 ps \<and> blocks s2 ps = blocks s ps \<and>
              free_bytes s2 ps = free_bytes s ps"
proof -
  let ?m = "TOTAL_METADATA_SIZE c" and ?k = "SBRK_SIZE c"
  let ?s0 = "s\<lparr>my_malloc_errno := NO_ERROR\<rparr>"
  from vh have fl: "free_list s ps" by (simp add: valid_heap_def)
  from cfg have c1: "0 < ?m" "?m \<le> ?k" by (simp_all add: config_ok_def)
  then have kn: "?k \<noteq> 0" by auto
  have so: "sorted_wrt (<) ps"
    using separated_sorted [OF sep] by (simp add: blocks_fst)
  have na: "no_adjacent ?m (blocks s ps)"
    using sep by (rule separated_no_adjacent)
  have null: "\<exists>s2. my_free c p s1 = Some s2 \<and> free_list s2 ps \<and> blocks s2 ps = blocks s ps"
    if "p = NULL" "s1 = s\<lparr>my_malloc_errno := e\<rparr>" for e
    using that fl by (simp add: my_free_null)
  have main: "\<exists>s2. my_free c p s1 = Some s2 \<and> free_list s2 ps \<and> blocks s2 ps = blocks s ps"
  proof -
    consider (large) "?k - ?m < sz" | (zero) "sz = 0" "\<not> ?k - ?m < sz"
      | (go) "sz \<noteq> 0" "sz \<le> ?k - ?m"
      by (cases "?k - ?m < sz"; cases "sz = 0"; simp add: not_less)
    then show ?thesis
    proof cases
      case large
      then have "my_malloc c sz s = Some (NULL, s\<lparr>my_malloc_errno := SINGLE_REQUEST_TOO_LARGE\<rparr>)"
        by (simp add: my_malloc_def)
      with mm show ?thesis by (intro null [of SINGLE_REQUEST_TOO_LARGE]) auto
    next
      case zero
      then have "my_malloc c sz s = Some (NULL, s\<lparr>my_malloc_errno := NO_ERROR\<rparr>)"
        by (simp add: my_malloc_def)
      with mm show ?thesis by (intro null [of NO_ERROR]) auto
    next
      case go
      have ng: "\<not> ?k - ?m < sz" using go(2) by simp
      obtain t where t: "find_best_fit sz s = Some t"
        using find_best_fit_list [OF fl] by blast
      show ?thesis
      proof (cases "t = NULL")
        case False
        from find_best_fit_valid [OF fl t False] have tin: "t \<in> set ps" by simp
        have ih: "in_heap c s t" using vh tin by (rule valid_heap_in_heap)
        have fl0: "free_list ?s0 ps" using fl by simp
        have tb: "take_block c t sz ?s0 = Some (p, s1)"
          using my_malloc_direct [OF fl go t False] mm by simp
        consider (small) "size_f s t < sz"
          | (unsplit) "size_f s t = sz \<or> (sz < size_f s t \<and> \<not> sz + ?m + 1 \<le> size_f s t)"
          | (split) "sz < size_f s t" "sz + ?m + 1 \<le> size_f s t"
          by (cases "size_f s t < sz"; cases "size_f s t = sz";
              cases "sz + ?m + 1 \<le> size_f s t"; force simp: not_less order_le_less)
        then show ?thesis
        proof cases
          case small
          then have "take_block c t sz ?s0 = Some (NULL, ?s0)"
            by (auto simp: take_block_def)
          with tb show ?thesis by (intro null [of NO_ERROR]) auto
        next
          case unsplit
          then have "size_f ?s0 t = sz \<or> (sz < size_f ?s0 t \<and> \<not> sz + ?m + 1 \<le> size_f ?s0 t)"
            by simp
          from take_block_unsplit [OF fl0 this] tb
          have s1: "p = t + ?m" "free_list s1 (remove1 t ps)"
            "relinked (set ps) ?s0 s1" "next_f s1 t = next_f s t"
            by auto
          from fl tin have tn: "t \<noteq> NULL"
            unfolding free_list_def by (auto dest: seg_not_null)
          have pn: "t + ?m \<noteq> NULL"
            using payload_not_null [of t ?m "size_f s t" "brk s"] ih tn
            by (simp add: in_heap_def)
          from roundtrip_unsplit [OF fl so na tin pn s1(2,3,4)] s1(1)
          show ?thesis by simp
        next
          case split
          from fl tin have tn: "t \<noteq> NULL"
            unfolding free_list_def by (auto dest: seg_not_null)
          have ih0: "in_heap c ?s0 t" using ih by simp
          from take_block_split [OF tn ih0, of sz] split tb
          have ps1: "p = t + ?m + size_f s t - (sz + ?m) + ?m"
            "s1 = s\<lparr>size_f := (size_f s)(t := size_f s t - (sz + ?m),
                         t + ?m + size_f s t - (sz + ?m) := sz),
                      my_malloc_errno := NO_ERROR\<rparr>"
            by simp_all
          from roundtrip_split [OF vh sep tin split(1)]
          show ?thesis unfolding ps1 .
        qed
      next
        case True
        have nf0: "find_best_fit sz ?s0 = Some NULL"
          using t True find_best_fit_errno [OF fl] by simp
        show ?thesis
        proof (cases "unat (brk s) + unat ?k \<le> unat (heap_end s)")
          case no: False
          have "my_malloc c sz s = Some (NULL, s\<lparr>my_malloc_errno := OUT_OF_MEMORY\<rparr>)"
            using go(1) ng nf0 no by (simp add: my_malloc_def Let_def my_sbrk_def)
          with mm show ?thesis by (intro null [of OUT_OF_MEMORY]) auto
        next
          case ok: True
          have "brk s1 = brk s + ?k"
          proof (cases "brk s = NULL")
            case True
            have "my_malloc c sz s = None"
              using go(1) ng nf0 ok True kn
              by (simp add: my_malloc_def Let_def my_sbrk_def)
            with mm show ?thesis by simp
          next
            case False
            from my_malloc_extend [OF c1 vh False go t [unfolded True] ok] mm
            show ?thesis by auto
          qed
          with nb kn show ?thesis by simp
        qed
      qed
    qed
  qed
  then show ?thesis
    by (auto dest: free_bytes_blocks)
qed

theorem C7_round_trip_witness:
  "config_ok cfg0 \<and> valid_heap cfg0 heap_sep [4096, 5000] \<and>
   separated (TOTAL_METADATA_SIZE cfg0) (blocks heap_sep [4096, 5000]) \<and>
   free_bytes heap_sep [4096, 5000] = 260 \<and>
   (\<exists>s1. my_malloc cfg0 100 heap_sep = Some (4212, s1) \<and> brk s1 = brk heap_sep \<and>
      (\<exists>s2. my_free cfg0 4212 s1 = Some s2 \<and> free_list s2 [4096, 5000] \<and>
         free_bytes s2 [4096, 5000] = 260)) \<and>
   (\<exists>s1. my_malloc cfg0 60 heap_sep = Some (5016, s1) \<and> brk s1 = brk heap_sep \<and>
      (\<exists>s2. my_free cfg0 5016 s1 = Some s2 \<and> free_list s2 [4096, 5000] \<and>
         free_bytes s2 [4096, 5000] = 260))"
proof -
  have c: "config_ok cfg0"
    by (simp add: config_ok_def cfg0_def)
  have v: "valid_heap cfg0 heap_sep [4096, 5000]"
    by (simp add: valid_heap_def free_list_def in_heap_def heap_sep_def cfg0_def)
  have s: "separated (TOTAL_METADATA_SIZE cfg0) (blocks heap_sep [4096, 5000])"
    by (simp add: blocks_def heap_sep_def cfg0_def)
  have f: "free_bytes heap_sep [4096, 5000] = 260"
    by (simp add: free_bytes_def heap_sep_def)
  have "map_option (\<lambda>(p, s1). (p, brk s1)) (my_malloc cfg0 100 heap_sep) = Some (4212, 6144)"
    by code_simp
  then obtain s1 where s1: "my_malloc cfg0 100 heap_sep = Some (4212, s1)" "brk s1 = brk heap_sep"
    by (auto simp: heap_sep_def)
  have "map_option (\<lambda>(p, s1). (p, brk s1)) (my_malloc cfg0 60 heap_sep) = Some (5016, 6144)"
    by code_simp
  then obtain s1' where s1': "my_malloc cfg0 60 heap_sep = Some (5016, s1')" "brk s1' = brk heap_sep"
    by (auto simp: heap_sep_def)
  from C7_round_trip [OF c v s s1] f
  have a: "\<exists>s2. my_free cfg0 4212 s1 = Some s2 \<and> free_list s2 [4096, 5000] \<and>
         free_bytes s2 [4096, 5000] = 260"
    by auto
  from C7_round_trip [OF c v s s1'] f
  have b: "\<exists>s2. my_free cfg0 5016 s1' = Some s2 \<and> free_list s2 [4096, 5000] \<and>
         free_bytes s2 [4096, 5000] = 260"
    by auto
  show ?thesis
    using c v s f s1 s1' a b by blast
qed

end
